theory Spec2Isabelle
  imports
    Main
    "HOL-Library.Char_ord"
    "HOL-Library.List_Lexorder"
    "HOL-Library.Product_Lexorder"
    "HOL-Library.Sublist"
begin

section \<open>The directory tree plugin of Porcupine\<close>

text \<open>
  A shallow embedding of \<^verbatim>\<open>porcupine/plugins/directory_tree.py\<close>: the parser of
  \<^verbatim>\<open>git status --porcelain\<close>, the computation of an item's git tag, the
  reconciliation of a directory item with the file system, and the list of projects.
\<close>

subsection \<open>Paths\<close>

text \<open>
  A \<^verbatim>\<open>pathlib.Path\<close> is modelled as an absolute POSIX path: the list of its components
  below the root, so that \<^verbatim>\<open>/\<close> is the empty list. (A path with exactly two leading
  slashes, which POSIX keeps apart, and Windows paths are outside the model.)
\<close>

type_synonym path = "string list"

text \<open>\<^verbatim>\<open>path.parents\<close>: the proper ancestors, the nearest first.\<close>

definition parents :: "path \<Rightarrow> path list" where
  "parents p = map (\<lambda>n. take n p) (rev [0..<length p])"

text \<open>\<^verbatim>\<open>str(path)\<close>.\<close>

definition str_path :: "path \<Rightarrow> string" where
  "str_path p = (if p = [] then ''/'' else concat (map (\<lambda>c. CHR ''/'' # c) p))"

text \<open>Cutting a string at every slash, as the parser of \<^verbatim>\<open>pathlib\<close> does.\<close>

fun split_sep :: "string \<Rightarrow> string list" where
  "split_sep [] = [[]]"
| "split_sep (c # cs) =
     (if c = CHR ''/'' then [] # split_sep cs
      else (case split_sep cs of [] \<Rightarrow> [[c]] | w # ws \<Rightarrow> (c # w) # ws))"

text \<open>The components of a string: empty components and \<^verbatim>\<open>.\<close> are dropped.\<close>

definition parse_parts :: "string \<Rightarrow> path" where
  "parse_parts s = filter (\<lambda>c. c \<noteq> [] \<and> c \<noteq> ''.'') (split_sep s)"

text \<open>\<^verbatim>\<open>path / s\<close>: an absolute \<open>s\<close> replaces the path.\<close>

definition truediv :: "path \<Rightarrow> string \<Rightarrow> path" where
  "truediv p s = (case s of [] \<Rightarrow> p
                  | c # _ \<Rightarrow> if c = CHR ''/'' then parse_parts s else p @ parse_parts s)"

subsection \<open>Statuses, tags and errors\<close>

text \<open>The git tags are the strings \<^verbatim>\<open>'git_added'\<close>, ... of the source.\<close>

datatype status = git_added | git_modified | git_mergeconflict | git_untracked | git_ignored

text \<open>
  The tags of a tree item: \<^verbatim>\<open>'dir'\<close>, \<^verbatim>\<open>'file'\<close>, \<^verbatim>\<open>'project'\<close>,
  \<^verbatim>\<open>'dummy'\<close> and the git tags, which are the tags that start with \<^verbatim>\<open>git_\<close>.
\<close>

datatype tag = Tag_dir | Tag_file | Tag_project | Tag_dummy | Tag_git status

fun is_git :: "tag \<Rightarrow> bool" where
  "is_git (Tag_git s) = True"
| "is_git _ = False"

datatype py_error = AssertionError | StopIteration | KeyError | IndexError | OSError

text \<open>A dictionary from paths to statuses, in insertion order.\<close>

type_synonym status_map = "(path \<times> status) list"

text \<open>\<^verbatim>\<open>d[k] = v\<close>: an old key keeps its place, a new key goes last.\<close>

fun dict_set :: "('k \<times> 'v) list \<Rightarrow> 'k \<Rightarrow> 'v \<Rightarrow> ('k \<times> 'v) list" where
  "dict_set [] k v = [(k, v)]"
| "dict_set ((k', v') # d) k v = (if k' = k then (k, v) # d else (k', v') # dict_set d k v)"

subsection \<open>\<^verbatim>\<open>run_git_status\<close>\<close>

text \<open>
  What \<^verbatim>\<open>subprocess.run\<close> did: it raised, or it completed with a return code and an
  output, given here as \<^verbatim>\<open>stdout.splitlines()\<close>.
\<close>

datatype run_result = Raised_OSError | Raised_UnicodeError | Completed int "string list"

text \<open>
  The loop over the lines. The second component of the result lists the lines that
  \<^verbatim>\<open>log.warning\<close> reported. \<^verbatim>\<open>line[1]\<close> raises on a line shorter than two characters.
\<close>

fun parse_lines :: "path \<Rightarrow> string list \<Rightarrow> status_map \<times> string list
    \<Rightarrow> py_error + status_map \<times> string list" where
  "parse_lines project_root [] (result, warned) = Inr (result, warned)"
| "parse_lines project_root (line # lines) (result, warned) =
     (let path = truediv project_root (drop 3 line) in
      if length line < 2 then Inl IndexError
      else if line ! 1 = CHR ''M'' then
        parse_lines project_root lines (dict_set result path git_modified, warned)
      else if line ! 1 = CHR '' '' then
        parse_lines project_root lines (dict_set result path git_added, warned)
      else if take 2 line = ''??'' then
        parse_lines project_root lines (dict_set result path git_untracked, warned)
      else if take 2 line = ''!!'' then
        parse_lines project_root lines (dict_set result path git_ignored, warned)
      else if take 2 line \<in> {''AA'', ''UU''} then
        parse_lines project_root lines (dict_set result path git_mergeconflict, warned)
      else parse_lines project_root lines (result, warned @ [line]))"

definition run_git_status :: "path \<Rightarrow> run_result \<Rightarrow> py_error + status_map \<times> string list" where
  "run_git_status project_root run =
     (case run of
        Raised_OSError \<Rightarrow> Inr ([], [])
      | Raised_UnicodeError \<Rightarrow> Inr ([], [])
      | Completed returncode stdout_lines \<Rightarrow>
          if returncode \<noteq> 0 then Inr ([], [])
          else parse_lines project_root stdout_lines
                 ([(truediv project_root ''.git'', git_ignored)], []))"

subsection \<open>The git tag of a child\<close>

text \<open>
  Lines 237 to 240 of \<^verbatim>\<open>open_and_refresh_directory\<close>: the chain from the child up to the
  first project root. \<open>acc\<close> is \<^verbatim>\<open>relevant_parents\<close>, \<open>cur\<close> its last element and the
  third argument what \<^verbatim>\<open>parent_iterator\<close> has left; \<^verbatim>\<open>next\<close> raises when nothing is.
\<close>

fun collect_parents :: "path set \<Rightarrow> path list \<Rightarrow> path \<Rightarrow> path list \<Rightarrow> py_error + path list" where
  "collect_parents project_roots acc cur [] =
     (if cur \<in> project_roots then Inr acc else Inl StopIteration)"
| "collect_parents project_roots acc cur (p # ps) =
     (if cur \<in> project_roots then Inr acc
      else collect_parents project_roots (acc @ [p]) p ps)"

definition relevant_parents :: "path set \<Rightarrow> path \<Rightarrow> py_error + path list" where
  "relevant_parents project_roots child_path =
     collect_parents project_roots [child_path] child_path (parents child_path)"

text \<open>Lines 252 to 258: the statuses found below the child.\<close>

definition child_tags :: "status_map \<Rightarrow> path \<Rightarrow> status set" where
  "child_tags git_status child_path =
     set (map snd (filter (\<lambda>(subpath, status).
        status \<in> {git_added, git_modified, git_mergeconflict}
        \<and> prefix (str_path child_path) (str_path subpath)
        \<and> child_path \<in> set (parents subpath)) git_status))"

text \<open>Lines 259 to 265: the tag a directory takes from what is below it.\<close>

definition aggregate :: "status set \<Rightarrow> py_error + status set" where
  "aggregate tags =
     (if git_mergeconflict \<in> tags then Inr {git_mergeconflict}
      else if git_modified \<in> tags then Inr {git_modified}
      else if card tags \<le> 1 then Inr tags
      else Inl AssertionError)"

text \<open>Lines 246 to 265: the \<^verbatim>\<open>for\<close> loop with its \<^verbatim>\<open>else\<close>.\<close>

fun status_tags :: "status_map \<Rightarrow> path \<Rightarrow> path list \<Rightarrow> py_error + status set" where
  "status_tags git_status child_path [] = aggregate (child_tags git_status child_path)"
| "status_tags git_status child_path (path # paths) =
     (case map_of git_status path of
        Some s \<Rightarrow> Inr {s}
      | None \<Rightarrow> status_tags git_status child_path paths)"

text \<open>
  Lines 237 to 265: the new tags of a child with the tags \<open>old_tags\<close>.
  \<^verbatim>\<open>self.git_statuses[...]\<close> raises when the project has no status map.
\<close>

definition new_tags_of :: "path set \<Rightarrow> (path \<rightharpoonup> status_map) \<Rightarrow> path \<Rightarrow> tag set
    \<Rightarrow> py_error + tag set" where
  "new_tags_of project_roots git_statuses child_path old_tags =
     (case relevant_parents project_roots child_path of
        Inl e \<Rightarrow> Inl e
      | Inr chain \<Rightarrow>
          (case git_statuses (last chain) of
             None \<Rightarrow> Inl KeyError
           | Some git_status \<Rightarrow>
               (case status_tags git_status child_path chain of
                  Inl e \<Rightarrow> Inl e
                | Inr found \<Rightarrow> Inr ({t \<in> old_tags. \<not> is_git t} \<union> Tag_git ` found))))"

subsection \<open>The items of the tree\<close>

text \<open>
  An item of the \<^verbatim>\<open>ttk.Treeview\<close>: its \<^verbatim>\<open>values\<close> (the path of a directory or a
  file, nothing for a placeholder), its tags and its children in display order. The tree is
  held by the owning parent, so an item is known by its place, not by an item id; the ids of
  the projects, which \<^verbatim>\<open>refresh_everything\<close> compares, are kept in the list of
  projects below. The text of an item and whether it is open are presentation only.
\<close>

datatype item = Item (item_values: "path option") (item_tags: "tag set") (item_children: "item list")

text \<open>
  \<^verbatim>\<open>get_path\<close>: asserts that the item is no placeholder, then reads
  \<^verbatim>\<open>values[0]\<close>.
\<close>

definition get_path :: "item \<Rightarrow> py_error + path" where
  "get_path it =
     (if Tag_dummy \<in> item_tags it then Inl AssertionError
      else (case item_values it of None \<Rightarrow> Inl IndexError | Some p \<Rightarrow> Inr p))"

text \<open>
  \<^verbatim>\<open>_insert_dummy\<close>: a placeholder (the item with the tag \<^verbatim>\<open>'dummy'\<close>) is
  inserted at the end of the children.
\<close>

definition dummy_item :: item where
  "dummy_item = Item None {Tag_dummy} []"

definition insert_dummy :: "item \<Rightarrow> item" where
  "insert_dummy parent =
     Item (item_values parent) (item_tags parent) (item_children parent @ [dummy_item])"

text \<open>
  \<^verbatim>\<open>_contains_dummy\<close>: exactly one child, and it is tagged \<^verbatim>\<open>'dummy'\<close>.
\<close>

definition contains_dummy :: "item \<Rightarrow> bool" where
  "contains_dummy parent =
     (case item_children parent of [c] \<Rightarrow> Tag_dummy \<in> item_tags c | _ \<Rightarrow> False)"

text \<open>
  The file system as the code reads it: \<^verbatim>\<open>path.iterdir()\<close> (nothing when it
  raises \<^verbatim>\<open>OSError\<close>; the order of the list stands for the order in which Python iterates
  over the set built from it) and \<^verbatim>\<open>path.is_dir()\<close>.
\<close>

record filesystem =
  iterdir :: "path \<Rightarrow> path list option"
  is_dir :: "path \<Rightarrow> bool"

text \<open>
  What a call does to the widget: \<^verbatim>\<open>self.delete\<close> of an item,
  \<^verbatim>\<open>self.insert\<close> of an item, and \<^verbatim>\<open>self.item(child_id, tags=...)\<close>. The functions
  below return the list of these calls next to the new tree.
\<close>

datatype mutation = Deleted item | Inserted item | Retagged path "tag set"

subsection \<open>\<^verbatim>\<open>open_and_refresh_directory\<close>\<close>

text \<open>
  Line 213: \<^verbatim>\<open>get_path\<close> of every child, in order, and the dictionary
  \<^verbatim>\<open>path2id\<close> built from the pairs (a later child with the same path takes the place of
  an earlier one).
\<close>

fun paths_of :: "item list \<Rightarrow> py_error + (path \<times> item) list" where
  "paths_of [] = Inr []"
| "paths_of (c # cs) =
     (case get_path c of
        Inl e \<Rightarrow> Inl e
      | Inr p \<Rightarrow> (case paths_of cs of Inl e \<Rightarrow> Inl e | Inr ps \<Rightarrow> Inr ((p, c) # ps)))"

definition dict_of :: "('k \<times> 'v) list \<Rightarrow> ('k \<times> 'v) list" where
  "dict_of pairs = fold (\<lambda>(k, v) d. dict_set d k v) pairs []"

text \<open>
  Lines 228 to 232: the item inserted for a new path, a directory with its
  placeholder, and the calls of \<^verbatim>\<open>self.insert\<close> that make it.
\<close>

definition new_item :: "filesystem \<Rightarrow> path \<Rightarrow> item" where
  "new_item fs path =
     (if is_dir fs path then insert_dummy (Item (Some path) {Tag_dir} [])
      else Item (Some path) {Tag_file} [])"

definition inserted :: "item \<Rightarrow> mutation list" where
  "inserted it = Inserted (Item (item_values it) (item_tags it) []) # map Inserted (item_children it)"

text \<open>
  Lines 210 to 232, up to the loop over the children. Either the function has
  returned (the listing is empty: a placeholder is inserted and nothing else is done), or it
  goes on with the pairs of line 213, the dictionary \<^verbatim>\<open>path2id\<close> after the deletions and
  the insertions, and the calls made so far. For the whole forest (\<open>dir_path\<close> is
  \<^verbatim>\<open>None\<close>) the new paths are the keys of \<^verbatim>\<open>path2id\<close>, so nothing is deleted or
  inserted.
\<close>

datatype prepared =
  Returned item "mutation list"
| Listed "(path \<times> item) list" "(path \<times> item) list" "mutation list"

definition prepare :: "filesystem \<Rightarrow> path option \<Rightarrow> item \<Rightarrow> py_error + prepared" where
  "prepare fs dir_path dir =
     (let children = (if contains_dummy dir then [] else item_children dir);
          log = (if contains_dummy dir then map Deleted (item_children dir) else [])
      in case paths_of children of
           Inl e \<Rightarrow> Inl e
         | Inr pairs \<Rightarrow>
             (let path2id = dict_of pairs in
              case dir_path of
                None \<Rightarrow> Inr (Listed pairs path2id log)
              | Some p \<Rightarrow>
                  (case iterdir fs p of
                     None \<Rightarrow> Inl OSError
                   | Some new_paths \<Rightarrow>
                       if new_paths = [] then
                         Inr (Returned (insert_dummy (Item (item_values dir) (item_tags dir) children))
                                (log @ [Inserted dummy_item]))
                       else
                         (let gone = filter (\<lambda>(path, c). path \<notin> set new_paths) path2id;
                              kept = filter (\<lambda>(path, c). path \<in> set new_paths) path2id;
                              fresh = map (\<lambda>path. (path, new_item fs path))
                                        (remdups (filter (\<lambda>path. path \<notin> fst ` set path2id) new_paths))
                          in Inr (Listed pairs (kept @ fresh)
                                   (log @ map (Deleted \<circ> snd) gone @ concat (map (inserted \<circ> snd) fresh)))))))"

text \<open>
  \<^verbatim>\<open>_sorting_key\<close>: the place of the git tag in the list
  \<^verbatim>\<open>['git_added', 'git_modified', 'git_mergeconflict', None, 'git_untracked', 'git_ignored']\<close>,
  then 1 for a directory and 2 otherwise, then \<^verbatim>\<open>str(path)\<close>. It asserts that the item has
  fewer than two git tags. Tuples and strings are compared lexicographically.
\<close>

fun status_rank :: "status option \<Rightarrow> nat" where
  "status_rank (Some git_added) = 0"
| "status_rank (Some git_modified) = 1"
| "status_rank (Some git_mergeconflict) = 2"
| "status_rank None = 3"
| "status_rank (Some git_untracked) = 4"
| "status_rank (Some git_ignored) = 5"

definition sorting_key :: "path \<times> item \<Rightarrow> py_error + nat \<times> nat \<times> string" where
  "sorting_key path_id_pair =
     (let tags = item_tags (snd path_id_pair);
          git_tags = filter (\<lambda>s. Tag_git s \<in> tags)
                       [git_added, git_modified, git_mergeconflict, git_untracked, git_ignored]
      in if \<not> length git_tags < 2 then Inl AssertionError
         else Inr (status_rank (case git_tags of [] \<Rightarrow> None | s # _ \<Rightarrow> Some s),
                   if Tag_dir \<in> tags then 1 else 2,
                   str_path (fst path_id_pair)))"

text \<open>
  Line 275: \<^verbatim>\<open>sorted(path2id.items(), key=self._sorting_key)\<close>, a stable sort;
  the keys are computed first, in order.
\<close>

fun with_keys :: "(path \<times> item) list \<Rightarrow> py_error + ((nat \<times> nat \<times> string) \<times> path \<times> item) list" where
  "with_keys [] = Inr []"
| "with_keys (x # xs) =
     (case sorting_key x of
        Inl e \<Rightarrow> Inl e
      | Inr k \<Rightarrow> (case with_keys xs of Inl e \<Rightarrow> Inl e | Inr ks \<Rightarrow> Inr ((k, x) # ks)))"

definition sort_children :: "(path \<times> item) list \<Rightarrow> py_error + (path \<times> item) list" where
  "sort_children path2id =
     (case with_keys path2id of
        Inl e \<Rightarrow> Inl e
      | Inr keyed \<Rightarrow> Inr (map snd (sort_key fst keyed)))"

text \<open>
  The children of the forest after the loop (no sorting there): a child is
  replaced by its refreshed item, unless a later child has the same path and took its
  place in \<^verbatim>\<open>path2id\<close>.
\<close>

fun rebuild :: "(path \<times> item) list \<Rightarrow> (path \<times> item) list \<Rightarrow> item list" where
  "rebuild [] processed = []"
| "rebuild ((p, c) # rest) processed =
     (if p \<in> fst ` set rest then c
      else (case map_of processed p of None \<Rightarrow> c | Some c' \<Rightarrow> c')) # rebuild rest processed"

text \<open>
  Lines 273 to 276. The assertion of line 274 compares the children with the
  values of \<^verbatim>\<open>path2id\<close>: it holds exactly when no two children had the same path. The
  moves of line 276 put the sorted items at the places 0, 1, ... in turn, which leaves
  the children in the sorted order.
\<close>

definition finish :: "path option \<Rightarrow> item \<Rightarrow> (path \<times> item) list \<Rightarrow> (path \<times> item) list
    \<Rightarrow> py_error + item" where
  "finish dir_path dir pairs processed =
     (case dir_path of
        None \<Rightarrow> Inr (Item (item_values dir) (item_tags dir) (rebuild pairs processed))
      | Some p \<Rightarrow>
          if \<not> distinct (map fst pairs) then Inl AssertionError
          else (case sort_children processed of
                  Inl e \<Rightarrow> Inl e
                | Inr sorted_pairs \<Rightarrow>
                    Inr (Item (item_values dir) (item_tags dir) (map snd sorted_pairs))))"

text \<open>
  The measure for the termination: a directory that the loop may enter counts one
  more than its children; a file, or a directory that shows only a placeholder, counts
  nothing, and so does every item that the function inserts.
\<close>

fun weight :: "item \<Rightarrow> nat" where
  "weight (Item v t cs) =
     (if Tag_dir \<in> t \<and> \<not> (case cs of [c] \<Rightarrow> Tag_dummy \<in> item_tags c | _ \<Rightarrow> False)
      then Suc (sum_list (map weight cs)) else 0)"

text \<open>
  \<^verbatim>\<open>open_and_refresh_directory\<close> and the loop of lines 236 to 271 over
  \<^verbatim>\<open>path2id.items()\<close>. \<open>top_roots\<close> are the paths of the projects, which
  \<^verbatim>\<open>self.get_children()\<close> gives at line 234; for the whole forest they are the keys of
  \<^verbatim>\<open>path2id\<close>. The roots do not change during a call: items are inserted and deleted
  below \<open>dir\<close> only.
\<close>

function open_and_refresh_directory ::
    "filesystem \<Rightarrow> (path \<rightharpoonup> status_map) \<Rightarrow> path set \<Rightarrow> path option \<Rightarrow> item
      \<Rightarrow> py_error + item \<times> mutation list"
  and refresh_children ::
    "filesystem \<Rightarrow> (path \<rightharpoonup> status_map) \<Rightarrow> path set \<Rightarrow> (path \<times> item) list
      \<Rightarrow> py_error + (path \<times> item) list \<times> mutation list"
where
  "open_and_refresh_directory fs git_statuses top_roots dir_path dir =
     (case prepare fs dir_path dir of
        Inl e \<Rightarrow> Inl e
      | Inr (Returned dir' log) \<Rightarrow> Inr (dir', log)
      | Inr (Listed pairs path2id log) \<Rightarrow>
          (case refresh_children fs git_statuses
                  (case dir_path of None \<Rightarrow> fst ` set path2id | Some p \<Rightarrow> top_roots) path2id of
             Inl e \<Rightarrow> Inl e
           | Inr (processed, log') \<Rightarrow>
               (case finish dir_path dir pairs processed of
                  Inl e \<Rightarrow> Inl e
                | Inr dir' \<Rightarrow> Inr (dir', log @ log'))))"
| "refresh_children fs git_statuses project_roots [] = Inr ([], [])"
| "refresh_children fs git_statuses project_roots ((child_path, child) # rest) =
     (case new_tags_of project_roots git_statuses child_path (item_tags child) of
        Inl e \<Rightarrow> Inl e
      | Inr new_tags \<Rightarrow>
          (case (if Tag_dir \<in> new_tags
                    \<and> \<not> contains_dummy (Item (item_values child) new_tags (item_children child))
                 then open_and_refresh_directory fs git_statuses project_roots (Some child_path)
                        (Item (item_values child) new_tags (item_children child))
                 else Inr (Item (item_values child) new_tags (item_children child), [])) of
             Inl e \<Rightarrow> Inl e
           | Inr (child', log') \<Rightarrow>
               (case refresh_children fs git_statuses project_roots rest of
                  Inl e \<Rightarrow> Inl e
                | Inr (rest', log'') \<Rightarrow>
                    Inr ((child_path, child') # rest',
                         (if item_tags child \<noteq> new_tags then [Retagged child_path new_tags] else [])
                         @ log' @ log''))))"
  by pat_completeness auto

lemma new_tags_of_keeps:
  assumes "new_tags_of project_roots git_statuses child_path old_tags = Inr new_tags"
  shows "{t \<in> new_tags. \<not> is_git t} = {t \<in> old_tags. \<not> is_git t}"
  using assms by (auto simp: new_tags_of_def split: sum.splits option.splits)

lemma new_tags_of_dir:
  assumes "new_tags_of project_roots git_statuses child_path old_tags = Inr new_tags"
  shows "Tag_dir \<in> new_tags \<longleftrightarrow> Tag_dir \<in> old_tags"
proof -
  have "Tag_dir \<in> {t \<in> new_tags. \<not> is_git t} \<longleftrightarrow> Tag_dir \<in> {t \<in> old_tags. \<not> is_git t}"
    by (simp only: new_tags_of_keeps [OF assms])
  then show ?thesis by simp
qed

lemma paths_of_snd: "paths_of cs = Inr pairs \<Longrightarrow> map snd pairs = cs"
  by (induction cs arbitrary: pairs) (auto split: sum.splits)

lemma weight_dict_set:
  "sum_list (map (\<lambda>a. f (snd a)) (dict_set d k v)) \<le> sum_list (map (\<lambda>a. f (snd a)) d) + (f v :: nat)"
  by (induction d k v rule: dict_set.induct) auto

lemma weight_fold_dict_set:
  "sum_list (map (\<lambda>a. f (snd a)) (fold (\<lambda>(k, v) d. dict_set d k v) pairs d0))
     \<le> sum_list (map (\<lambda>a. f (snd a)) d0) + (sum_list (map (\<lambda>a. f (snd a)) pairs) :: nat)"
proof (induction pairs arbitrary: d0)
  case Nil
  then show ?case by simp
next
  case (Cons kv pairs)
  obtain k v where kv: "kv = (k, v)" by (cases kv)
  have "sum_list (map (\<lambda>a. f (snd a)) (fold (\<lambda>(k, v) d. dict_set d k v) pairs (dict_set d0 k v)))
      \<le> sum_list (map (\<lambda>a. f (snd a)) (dict_set d0 k v)) + sum_list (map (\<lambda>a. f (snd a)) pairs)"
    by (rule Cons.IH)
  also have "\<dots> \<le> (sum_list (map (\<lambda>a. f (snd a)) d0) + f v) + sum_list (map (\<lambda>a. f (snd a)) pairs)"
    using weight_dict_set [of f d0 k v] by simp
  finally show ?case by (simp add: kv)
qed

lemma weight_dict_of:
  "sum_list (map (\<lambda>a. f (snd a)) (dict_of pairs)) \<le> (sum_list (map (\<lambda>a. f (snd a)) pairs) :: nat)"
  using weight_fold_dict_set [of f pairs "[]"] by (simp add: dict_of_def)

lemma weight_filter: "sum_list (map f (filter P xs)) \<le> (sum_list (map f xs) :: nat)"
  by (induction xs) auto

lemma weight_new_item [simp]: "weight (new_item fs path) = 0"
  by (simp add: new_item_def insert_dummy_def dummy_item_def)

lemma weight_fresh: "sum_list (map (\<lambda>a. weight (snd a)) (map (\<lambda>path. (path, new_item fs path)) ps)) = 0"
  by (induction ps) simp_all

lemma prepare_Listed:
  assumes "prepare fs dir_path dir = Inr (Listed pairs path2id log)"
  shows "paths_of (if contains_dummy dir then [] else item_children dir) = Inr pairs"
    and "dir_path = None \<Longrightarrow> path2id = dict_of pairs"
    and "dir_path = Some d \<Longrightarrow> \<exists>new_paths. iterdir fs d = Some new_paths \<and> new_paths \<noteq> [] \<and>
           path2id = filter (\<lambda>(path, c). path \<in> set new_paths) (dict_of pairs)
             @ map (\<lambda>path. (path, new_item fs path))
                 (remdups (filter (\<lambda>path. path \<notin> fst ` set (dict_of pairs)) new_paths))"
proof -
  let ?children = "if contains_dummy dir then [] else item_children dir"
  show p: "paths_of ?children = Inr pairs"
  proof (cases "paths_of ?children")
    case (Inl e)
    with assms show ?thesis by (simp add: prepare_def Let_def)
  next
    case (Inr ps)
    with assms have "ps = pairs"
      by (cases dir_path; cases "iterdir fs (the dir_path)")
         (simp_all add: prepare_def Let_def split: if_splits)
    with Inr show ?thesis by simp
  qed
  show "path2id = dict_of pairs" if "dir_path = None"
    using assms p that by (simp add: prepare_def Let_def)
  show "\<exists>new_paths. iterdir fs d = Some new_paths \<and> new_paths \<noteq> [] \<and>
           path2id = filter (\<lambda>(path, c). path \<in> set new_paths) (dict_of pairs)
             @ map (\<lambda>path. (path, new_item fs path))
                 (remdups (filter (\<lambda>path. path \<notin> fst ` set (dict_of pairs)) new_paths))"
    if "dir_path = Some d"
    using assms p that
    by (cases "iterdir fs d") (simp_all add: prepare_def Let_def split: if_splits)
qed

lemma prepare_weight:
  assumes "prepare fs dir_path dir = Inr (Listed pairs path2id log)"
  shows "sum_list (map (\<lambda>a. weight (snd a)) path2id) \<le> sum_list (map weight (item_children dir))"
proof -
  let ?children = "if contains_dummy dir then [] else item_children dir"
  have "map snd pairs = ?children"
    using prepare_Listed(1) [OF assms] by (rule paths_of_snd)
  then have "sum_list (map weight (map snd pairs)) = sum_list (map weight ?children)"
    by (simp only:)
  then have "sum_list (map (\<lambda>a. weight (snd a)) pairs) \<le> sum_list (map weight (item_children dir))"
    by (simp add: comp_def split: if_splits)
  then have le: "sum_list (map (\<lambda>a. weight (snd a)) (dict_of pairs))
      \<le> sum_list (map weight (item_children dir))"
    using weight_dict_of [of weight pairs] by linarith
  show ?thesis
  proof (cases dir_path)
    case None
    then have "path2id = dict_of pairs" by (rule prepare_Listed(2) [OF assms])
    with le show ?thesis by simp
  next
    case (Some d)
    then obtain new_paths where
      "path2id = filter (\<lambda>(path, c). path \<in> set new_paths) (dict_of pairs)
         @ map (\<lambda>path. (path, new_item fs path))
             (remdups (filter (\<lambda>path. path \<notin> fst ` set (dict_of pairs)) new_paths))"
      using prepare_Listed(3) [OF assms] by blast
    then have "sum_list (map (\<lambda>a. weight (snd a)) path2id)
        = sum_list (map (\<lambda>a. weight (snd a))
            (filter (\<lambda>(path, c). path \<in> set new_paths) (dict_of pairs)))"
      using weight_fresh [of fs] by (simp add: comp_def)
    also have "\<dots> \<le> sum_list (map (\<lambda>a. weight (snd a)) (dict_of pairs))" by (rule weight_filter)
    finally show ?thesis using le by linarith
  qed
qed

lemma weight_guard:
  "Tag_dir \<in> item_tags c \<Longrightarrow> \<not> contains_dummy c \<Longrightarrow> weight c = Suc (sum_list (map weight (item_children c)))"
  by (cases c) (simp add: contains_dummy_def)



termination open_and_refresh_directory
proof (relation "measures
    [\<lambda>x. case x of Inl (fs, gs, tr, dp, dir) \<Rightarrow> sum_list (map weight (item_children dir))
               | Inr (fs, gs, roots, l) \<Rightarrow> sum_list (map (\<lambda>a. weight (snd a)) l),
     \<lambda>x. case x of Inl _ \<Rightarrow> 1 | Inr _ \<Rightarrow> 0,
     \<lambda>x. case x of Inl _ \<Rightarrow> 0 | Inr (fs, gs, roots, l) \<Rightarrow> length l]", goal_cases)
  case 1
  show ?case by simp
next
  case (2 fs git_statuses top_roots dir_path dir b x21 x22 x23)
  then have "prepare fs dir_path dir = Inr (Listed x21 x22 x23)" by simp
  then have "sum_list (map (\<lambda>a. weight (snd a)) x22) \<le> sum_list (map weight (item_children dir))"
    by (rule prepare_weight)
  then show ?case by (simp add: le_less)
next
  case (3 fs git_statuses project_roots child_path child rest b)
  then have "Tag_dir \<in> item_tags child" using new_tags_of_dir by blast
  moreover from 3 have "\<not> contains_dummy child" by (simp add: contains_dummy_def)
  ultimately have "weight child = Suc (sum_list (map weight (item_children child)))"
    by (rule weight_guard)
  then show ?case by simp
next
  case 4
  show ?case by simp arith
qed

declare open_and_refresh_directory.simps [simp del]

subsection \<open>The projects\<close>

definition PROJECT_AUTOCLOSE_COUNT :: nat where
  "PROJECT_AUTOCLOSE_COUNT = 5"

text \<open>
  A tab of the tab manager: a \<^verbatim>\<open>FileTab\<close> with its path, which may be
  \<^verbatim>\<open>None\<close>, or any other tab.
\<close>

datatype tab = FileTab "path option" | OtherTab

text \<open>
  The state of the widget: the children of the root item, each with its item
  id, the most recently used project first; the counter that names the next project;
  \<^verbatim>\<open>self.git_statuses\<close>; and the setting \<^verbatim>\<open>directory_tree_projects\<close>.
\<close>

record directory_tree =
  projects :: "(nat \<times> item) list"
  next_id :: nat
  git_statuses :: "path \<rightharpoonup> status_map"
  directory_tree_projects :: "string list"

text \<open>
  Lines 173 to 178: some tab is a \<^verbatim>\<open>FileTab\<close> with a path below the project.
\<close>

definition has_open_file :: "tab list \<Rightarrow> path \<Rightarrow> bool" where
  "has_open_file tabs project_path =
     list_ex (\<lambda>tab. case tab of
                      FileTab (Some path) \<Rightarrow> project_path \<in> set (parents path)
                    | FileTab None \<Rightarrow> False
                    | OtherTab \<Rightarrow> False) tabs"

text \<open>
  \<^verbatim>\<open>hide_old_projects\<close>: the loop over \<^verbatim>\<open>reversed(self.get_children(''))\<close>,
  where \<open>current\<close> are the children at the moment, then the setting is written.
\<close>

fun hide_loop :: "filesystem \<Rightarrow> tab list \<Rightarrow> (nat \<times> item) list \<Rightarrow> (nat \<times> item) list
    \<Rightarrow> py_error + (nat \<times> item) list" where
  "hide_loop fs tabs [] current = Inr current"
| "hide_loop fs tabs ((project_id, project) # rest) current =
     (case get_path project of
        Inl e \<Rightarrow> Inl e
      | Inr project_path \<Rightarrow>
          if \<not> is_dir fs project_path
             \<or> (length current > PROJECT_AUTOCLOSE_COUNT \<and> \<not> has_open_file tabs project_path)
          then hide_loop fs tabs rest (filter (\<lambda>(i, c). i \<noteq> project_id) current)
          else hide_loop fs tabs rest current)"

definition hide_old_projects :: "filesystem \<Rightarrow> tab list \<Rightarrow> directory_tree \<Rightarrow> py_error + directory_tree" where
  "hide_old_projects fs tabs tree =
     (case hide_loop fs tabs (rev (projects tree)) (projects tree) of
        Inl e \<Rightarrow> Inl e
      | Inr current \<Rightarrow>
          (case paths_of (map snd current) of
             Inl e \<Rightarrow> Inl e
           | Inr pairs \<Rightarrow>
               Inr (tree\<lparr>projects := current,
                         directory_tree_projects := map (\<lambda>(path, c). str_path path) pairs\<rparr>)))"

text \<open>
  \<^verbatim>\<open>refresh_everything\<close> up to the start of the thread: the projects are
  checked, and the thread is given \<^verbatim>\<open>paths\<close>, the path of every project by item id.
\<close>

definition refresh_everything :: "filesystem \<Rightarrow> tab list \<Rightarrow> directory_tree
    \<Rightarrow> py_error + directory_tree \<times> (nat \<times> path) list" where
  "refresh_everything fs tabs tree =
     (case hide_old_projects fs tabs tree of
        Inl e \<Rightarrow> Inl e
      | Inr tree' \<Rightarrow>
          (case paths_of (map snd (projects tree')) of
             Inl e \<Rightarrow> Inl e
           | Inr pairs \<Rightarrow> Inr (tree', zip (map fst (projects tree')) (map fst pairs))))"

text \<open>
  What \<^verbatim>\<open>utils.run_in_thread\<close> hands to \<^verbatim>\<open>done_callback\<close>: success with the
  status maps, or failure with a message. \<^verbatim>\<open>done_callback\<close> then compares the item ids of
  the projects with those of \<^verbatim>\<open>paths\<close>.
\<close>

datatype outcome = Succeeded "path \<rightharpoonup> status_map" | Failed string

definition done_callback :: "filesystem \<Rightarrow> (nat \<times> path) list \<Rightarrow> outcome \<Rightarrow> directory_tree
    \<Rightarrow> py_error + directory_tree \<times> mutation list" where
  "done_callback fs paths outcome tree =
     (case outcome of
        Succeeded result \<Rightarrow>
          if set (map fst (projects tree)) = fst ` set paths then
            (case open_and_refresh_directory fs result {} None
                    (Item None {} (map snd (projects tree))) of
               Inl e \<Rightarrow> Inl e
             | Inr (root, log) \<Rightarrow>
                 Inr (tree\<lparr>git_statuses := result,
                           projects := zip (map fst (projects tree)) (item_children root)\<rparr>, log))
          else Inr (tree, [])
      | Failed message \<Rightarrow> Inr (tree, []))"

text \<open>
  \<^verbatim>\<open>add_project\<close>: the loop of lines 138 to 142 finds the first project with
  the path; such a project is moved to the front and the function returns. Otherwise a new
  project goes to the front. The result holds \<^verbatim>\<open>paths\<close> when a refresh was started.
\<close>

fun find_project :: "path \<Rightarrow> (nat \<times> item) list \<Rightarrow> py_error + (nat \<times> item) option" where
  "find_project root_path [] = Inr None"
| "find_project root_path ((project_item_id, project) # rest) =
     (case get_path project of
        Inl e \<Rightarrow> Inl e
      | Inr path \<Rightarrow>
          if path = root_path then Inr (Some (project_item_id, project))
          else find_project root_path rest)"

definition add_project :: "filesystem \<Rightarrow> tab list \<Rightarrow> path \<Rightarrow> bool \<Rightarrow> directory_tree
    \<Rightarrow> py_error + directory_tree \<times> (nat \<times> path) list option" where
  "add_project fs tabs root_path refresh tree =
     (case find_project root_path (projects tree) of
        Inl e \<Rightarrow> Inl e
      | Inr (Some (project_item_id, project)) \<Rightarrow>
          Inr (tree\<lparr>projects := (project_item_id, project)
                      # filter (\<lambda>(i, c). i \<noteq> project_item_id) (projects tree)\<rparr>, None)
      | Inr None \<Rightarrow>
          (case hide_old_projects fs tabs
                  (tree\<lparr>projects := (next_id tree,
                                      insert_dummy (Item (Some root_path) {Tag_dir, Tag_project} []))
                                    # projects tree,
                        next_id := Suc (next_id tree)\<rparr>) of
             Inl e \<Rightarrow> Inl e
           | Inr tree' \<Rightarrow>
               if refresh then
                 (case refresh_everything fs tabs tree' of
                    Inl e \<Rightarrow> Inl e
                  | Inr (tree'', paths) \<Rightarrow> Inr (tree'', Some paths))
               else Inr (tree', None)))"

subsection \<open>Notions used to state the properties\<close>

text \<open>The path \<open>k\<close> levels above a path: the path itself for \<open>k = 0\<close>, then its parents.\<close>

definition ancestor :: "path \<Rightarrow> nat \<Rightarrow> path" where
  "ancestor p k = take (length p - k) p"

text \<open>
  The status that a line of \<^verbatim>\<open>git status --porcelain\<close> gives to its path: decided by the
  second character first (\<^verbatim>\<open>M\<close>, then a space), then by the two characters together.
\<close>

definition line_status :: "string \<Rightarrow> status option" where
  "line_status line =
     (if line ! 1 = CHR ''M'' then Some git_modified
      else if line ! 1 = CHR '' '' then Some git_added
      else if take 2 line = ''??'' then Some git_untracked
      else if take 2 line = ''!!'' then Some git_ignored
      else if take 2 line = ''AA'' \<or> take 2 line = ''UU'' then Some git_mergeconflict
      else None)"

text \<open>A line names the path \<open>p\<close> of a project when it has a status and its path is \<open>p\<close>.\<close>

definition names :: "path \<Rightarrow> path \<Rightarrow> string \<Rightarrow> bool" where
  "names project_root p line \<longleftrightarrow> line_status line \<noteq> None \<and> truediv project_root (drop 3 line) = p"

text \<open>
  A child after the loop of lines 236 to 271, against the child before: the same path and
  values, and the tags that \<open>new_tags_of\<close> computes from the old ones.
\<close>

definition refreshed :: "path set \<Rightarrow> (path \<rightharpoonup> status_map) \<Rightarrow> path \<times> item \<Rightarrow> path \<times> item \<Rightarrow> bool" where
  "refreshed roots gs before after \<longleftrightarrow>
     fst after = fst before
     \<and> item_values (snd after) = item_values (snd before)
     \<and> new_tags_of roots gs (fst before) (item_tags (snd before)) = Inr (item_tags (snd after))"

text \<open>
  No item of the tree holds a placeholder beside other children.
\<close>

fun unmixed :: "item \<Rightarrow> bool" where
  "unmixed (Item v t cs) \<longleftrightarrow>
     ((\<exists>c \<in> set cs. Tag_dummy \<in> item_tags c) \<longrightarrow> length cs = 1) \<and> (\<forall>c \<in> set cs. unmixed c)"

text \<open>A call that deletes or inserts a placeholder.\<close>

definition placeholder_call :: "mutation \<Rightarrow> bool" where
  "placeholder_call m \<longleftrightarrow> m = Deleted dummy_item \<or> m = Inserted dummy_item"

text \<open>
  A child on which the body of the loop changes nothing: it leaves the child as it is and
  makes no call but on placeholders.
\<close>

definition settled :: "filesystem \<Rightarrow> (path \<rightharpoonup> status_map) \<Rightarrow> path set \<Rightarrow> path \<times> item \<Rightarrow> bool" where
  "settled fs gs roots x \<longleftrightarrow>
     (\<exists>log. refresh_children fs gs roots [x] = Inr ([x], log) \<and> list_all placeholder_call log)"


section \<open>Properties\<close>

subsection \<open>Paths and the chain of parents\<close>


lemma parents_nth: "k < length p \<Longrightarrow> parents p ! k = take (length p - Suc k) p"
  by (simp add: parents_def rev_nth)

lemma length_parents [simp]: "length (parents p) = length p"
  by (simp add: parents_def)

lemma ancestry_nth: "k \<le> length p \<Longrightarrow> (p # parents p) ! k = ancestor p k"
  by (cases k) (simp_all add: ancestor_def parents_nth)

lemma in_parents_iff: "q \<in> set (parents p) \<longleftrightarrow> (\<exists>n < length p. q = take n p)"
  by (auto simp: parents_def)

lemma str_path_Cons: "str_path (c # p) = CHR ''/'' # c @ (if p = [] then [] else str_path p)"
  by (simp add: str_path_def)

lemma str_path_append:
  "p \<noteq> [] \<Longrightarrow> q \<noteq> [] \<Longrightarrow> str_path (p @ q) = str_path p @ str_path q"
  by (simp add: str_path_def)

lemma prefix_str_path:
  assumes "child \<in> set (parents sub)"
  shows "prefix (str_path child) (str_path sub)"
proof -
  from assms obtain n where n: "n < length sub" "child = take n sub"
    by (auto simp: in_parents_iff)
  show ?thesis
  proof (cases "n = 0")
    case True
    with n obtain c cs where "sub = c # cs" by (cases sub) auto
    with True n show ?thesis by (simp add: str_path_def)
  next
    case False
    with n have ne: "take n sub \<noteq> []" "drop n sub \<noteq> []" by auto
    have "str_path sub = str_path (take n sub @ drop n sub)" by simp
    also have "\<dots> = str_path (take n sub) @ str_path (drop n sub)"
      using ne by (rule str_path_append)
    finally show ?thesis using n by simp
  qed
qed


lemma collect_parents_found:
  "i \<le> length rest \<Longrightarrow> (cur # rest) ! i \<in> roots \<Longrightarrow> \<forall>k<i. (cur # rest) ! k \<notin> roots
   \<Longrightarrow> collect_parents roots acc cur rest = Inr (acc @ take i rest)"
proof (induction rest arbitrary: acc cur i)
  case Nil
  then show ?case by simp
next
  case (Cons p ps)
  show ?case
  proof (cases i)
    case 0
    with Cons.prems show ?thesis by simp
  next
    case (Suc i')
    with Cons.prems have "cur \<notin> roots" by auto
    moreover have "collect_parents roots (acc @ [p]) p ps = Inr ((acc @ [p]) @ take i' ps)"
    proof (rule Cons.IH)
      show "i' \<le> length ps" using Cons.prems Suc by simp
      show "(p # ps) ! i' \<in> roots" using Cons.prems Suc by simp
      show "\<forall>k<i'. (p # ps) ! k \<notin> roots"
      proof (intro allI impI)
        fix k assume "k < i'"
        then have "Suc k < i" using Suc by simp
        with Cons.prems(3) have "(cur # p # ps) ! Suc k \<notin> roots" by blast
        then show "(p # ps) ! k \<notin> roots" by simp
      qed
    qed
    ultimately show ?thesis using Suc by simp
  qed
qed

lemma collect_parents_none:
  "\<forall>q \<in> set (cur # rest). q \<notin> roots \<Longrightarrow> collect_parents roots acc cur rest = Inl StopIteration"
proof (induction rest arbitrary: acc cur)
  case Nil
  then show ?case by simp
next
  case (Cons a rest)
  have "collect_parents roots acc cur (a # rest) = collect_parents roots (acc @ [a]) a rest"
    using Cons.prems by simp
  also have "\<dots> = Inl StopIteration" using Cons.prems by (intro Cons.IH) simp
  finally show ?case .
qed

lemma relevant_parents_found:
  assumes "i \<le> length p" "ancestor p i \<in> roots" "\<forall>k<i. ancestor p k \<notin> roots"
  shows "relevant_parents roots p = Inr (map (ancestor p) [0..<Suc i])"
proof -
  have 1: "(p # parents p) ! i \<in> roots" using assms by (simp add: ancestry_nth)
  have 2: "\<forall>k<i. (p # parents p) ! k \<notin> roots" using assms by (simp add: ancestry_nth)
  have "relevant_parents roots p = Inr ([p] @ take i (parents p))"
    unfolding relevant_parents_def using assms(1) 1 2 by (intro collect_parents_found) simp_all
  moreover have "[p] @ take i (parents p) = map (ancestor p) [0..<Suc i]"
  proof (rule nth_equalityI)
    show "length ([p] @ take i (parents p)) = length (map (ancestor p) [0..<Suc i])"
      using assms(1) by simp
    fix k assume "k < length ([p] @ take i (parents p))"
    then have k: "k \<le> i" using assms(1) by simp
    then have "([p] @ take i (parents p)) ! k = (p # parents p) ! k"
      by (cases k) simp_all
    also have "\<dots> = ancestor p k" using k assms(1) by (simp add: ancestry_nth)
    also have "\<dots> = map (ancestor p) [0..<Suc i] ! k" using k
      by (metis (no_types) add_0 le_imp_less_Suc nth_map_upt diff_zero)
    finally show "([p] @ take i (parents p)) ! k = map (ancestor p) [0..<Suc i] ! k" .
  qed
  ultimately show ?thesis by simp
qed

lemma status_tags_found:
  "j < length chain \<Longrightarrow> map_of gs (chain ! j) = Some s \<Longrightarrow> \<forall>k<j. map_of gs (chain ! k) = None
   \<Longrightarrow> status_tags gs cp chain = Inr {s}"
proof (induction chain arbitrary: j)
  case Nil
  then show ?case by simp
next
  case (Cons q qs)
  show ?case
  proof (cases j)
    case 0
    with Cons.prems show ?thesis by simp
  next
    case (Suc j')
    with Cons.prems have "map_of gs q = None" by auto
    moreover have "status_tags gs cp qs = Inr {s}"
    proof (rule Cons.IH [of j'])
      show "j' < length qs" using Cons.prems Suc by simp
      show "map_of gs (qs ! j') = Some s" using Cons.prems Suc by simp
      show "\<forall>k<j'. map_of gs (qs ! k) = None"
      proof (intro allI impI)
        fix k assume "k < j'"
        then have "Suc k < j" using Suc by simp
        with Cons.prems(3) have "map_of gs ((q # qs) ! Suc k) = None" by blast
        then show "map_of gs (qs ! k) = None" by simp
      qed
    qed
    ultimately show ?thesis by simp
  qed
qed

lemma status_tags_none:
  "\<forall>q \<in> set chain. map_of gs q = None \<Longrightarrow> status_tags gs cp chain = aggregate (child_tags gs cp)"
  by (induction chain) simp_all


lemma card_subset_singleton: "T \<subseteq> {a} \<Longrightarrow> card T \<le> 1"
  using card_mono [of "{a}" T] by simp

subsection \<open>The parser\<close>


lemma map_of_dict_set: "map_of (dict_set d k v) = (map_of d)(k \<mapsto> v)"
  by (induction d k v rule: dict_set.induct) auto

lemma keys_dict_set: "set (map fst (dict_set d k v)) = insert k (set (map fst d))"
  by (induction d k v rule: dict_set.induct) auto

lemma distinct_dict_set: "distinct (map fst d) \<Longrightarrow> distinct (map fst (dict_set d k v))"
proof (induction d k v rule: dict_set.induct)
  case (1 k v)
  then show ?case by simp
next
  case (2 k' v' d k v)
  then show ?case using keys_dict_set [of d k v] by auto
qed

lemma parse_lines_step:
  "2 \<le> length line \<Longrightarrow>
   parse_lines root (line # lines) (result, warned) =
   parse_lines root lines
     (case line_status line of
        Some st \<Rightarrow> (dict_set result (truediv root (drop 3 line)) st, warned)
      | None \<Rightarrow> (result, warned @ [line]))"
  by (simp add: line_status_def Let_def)

lemma find_snoc:
  "find P (xs @ [x]) = (case find P xs of Some y \<Rightarrow> Some y | None \<Rightarrow> if P x then Some x else None)"
  by (induction xs) auto

lemma parse_lines_result:
  assumes "\<forall>line \<in> set lines. 2 \<le> length line"
  shows "\<exists>result' warned'.
      parse_lines root lines (result, warned) = Inr (result', warned')
      \<and> (distinct (map fst result) \<longrightarrow> distinct (map fst result'))
      \<and> warned' = warned @ filter (\<lambda>l. line_status l = None) lines
      \<and> (\<forall>p. map_of result' p =
            (case find (names root p) (rev lines) of
               Some l \<Rightarrow> line_status l
             | None \<Rightarrow> map_of result p))"
  using assms
proof (induction lines arbitrary: result warned)
  case Nil
  then show ?case by simp
next
  case (Cons line lines)
  then have len: "2 \<le> length line" and rest: "\<forall>l \<in> set lines. 2 \<le> length l" by simp_all
  show ?case
  proof (cases "line_status line")
    case None
    from Cons.IH [OF rest, of result "warned @ [line]"] obtain result' warned' where
      r: "parse_lines root lines (result, warned @ [line]) = Inr (result', warned')"
        "distinct (map fst result) \<longrightarrow> distinct (map fst result')"
        "warned' = (warned @ [line]) @ filter (\<lambda>l. line_status l = None) lines"
        "\<forall>p. map_of result' p =
            (case find (names root p) (rev lines) of Some l \<Rightarrow> line_status l | None \<Rightarrow> map_of result p)"
      by blast
    have "parse_lines root (line # lines) (result, warned) = Inr (result', warned')"
      using r(1) None by (simp only: parse_lines_step [OF len] option.case)
    moreover have "\<forall>p. map_of result' p =
        (case find (names root p) (rev (line # lines)) of
           Some l \<Rightarrow> line_status l | None \<Rightarrow> map_of result p)"
      using r(4) None by (simp add: find_snoc names_def split: option.splits)
    ultimately show ?thesis using r(2,3) None by simp
  next
    case (Some st)
    let ?path = "truediv root (drop 3 line)"
    from Cons.IH [OF rest, of "dict_set result ?path st" warned] obtain result' warned' where
      r: "parse_lines root lines (dict_set result ?path st, warned) = Inr (result', warned')"
        "distinct (map fst (dict_set result ?path st)) \<longrightarrow> distinct (map fst result')"
        "warned' = warned @ filter (\<lambda>l. line_status l = None) lines"
        "\<forall>p. map_of result' p =
            (case find (names root p) (rev lines) of
               Some l \<Rightarrow> line_status l | None \<Rightarrow> map_of (dict_set result ?path st) p)"
      by blast
    have "parse_lines root (line # lines) (result, warned) = Inr (result', warned')"
      using r(1) Some by (simp only: parse_lines_step [OF len] option.case)
    moreover have "\<forall>p. map_of result' p =
        (case find (names root p) (rev (line # lines)) of
           Some l \<Rightarrow> line_status l | None \<Rightarrow> map_of result p)"
      using r(4) Some by (simp add: find_snoc names_def map_of_dict_set split: option.splits)
    ultimately show ?thesis using r(2,3) Some distinct_dict_set [of result ?path st] by simp
  qed
qed

text \<open>
  Claim C2 (as amended). When the status command exits with status zero and every line of its
  output has at least two characters, \<^verbatim>\<open>run_git_status\<close> returns a dictionary and the
  list of the lines it warned about. A line is classified by \<open>line_status\<close>: a second
  character \<^verbatim>\<open>M\<close> gives Modified whatever the first character is; otherwise a second
  character space gives Added (so the staged \<^verbatim>\<open>M\<close> followed by a space is Added);
  otherwise \<^verbatim>\<open>??\<close> gives Untracked, \<^verbatim>\<open>!!\<close> Ignored, \<^verbatim>\<open>AA\<close> and \<^verbatim>\<open>UU\<close>
  MergeConflict; any other line is warned about and skipped. The dictionary gives every
  path the status of the last classified line that names it; the \<^verbatim>\<open>.git\<close> directory of
  the project is Ignored when no classified line names it; no other path has an entry.
\<close>

theorem run_git_status_parses:
  assumes "\<forall>line \<in> set lines. 2 \<le> length line"
  shows "\<exists>result warned.
      run_git_status project_root (Completed 0 lines) = Inr (result, warned)
      \<and> distinct (map fst result)
      \<and> warned = filter (\<lambda>l. line_status l = None) lines
      \<and> (\<forall>p. map_of result p =
            (case find (names project_root p) (rev lines) of
               Some l \<Rightarrow> line_status l
             | None \<Rightarrow> if p = truediv project_root ''.git'' then Some git_ignored else None))"
proof -
  let ?start = "[(truediv project_root ''.git'', git_ignored)]"
  from parse_lines_result [OF assms, of project_root ?start "[]"]
  obtain result warned where
    r: "parse_lines project_root lines (?start, []) = Inr (result, warned)"
      "distinct (map fst ?start) \<longrightarrow> distinct (map fst result)"
      "warned = [] @ filter (\<lambda>l. line_status l = None) lines"
      "\<forall>p. map_of result p =
          (case find (names project_root p) (rev lines) of
             Some l \<Rightarrow> line_status l | None \<Rightarrow> map_of ?start p)"
    by blast
  have "run_git_status project_root (Completed 0 lines) = Inr (result, warned)"
    using r(1) by (simp add: run_git_status_def)
  moreover have "distinct (map fst result)" using r(2) by simp
  moreover have "\<forall>p. map_of result p =
      (case find (names project_root p) (rev lines) of
         Some l \<Rightarrow> line_status l
       | None \<Rightarrow> if p = truediv project_root ''.git'' then Some git_ignored else None)"
    using r(4) by (simp split: option.splits)
  ultimately show ?thesis using r(3) by simp
qed


text \<open>
  Claim C2, counterexample. The line \<^verbatim>\<open>M\<close>, space, space, \<^verbatim>\<open>staged.py\<close> has the code \<^verbatim>\<open>M_\<close>, and its
  path is Added, not Modified.
\<close>

theorem staged_counterexample:
  "run_git_status [''r''] (Completed 0 [''M  staged.py''])
     = Inr ([([''r'', ''.git''], git_ignored), ([''r'', ''staged.py''], git_added)], [])
   \<and> map_of [([''r'', ''.git''], git_ignored), ([''r'', ''staged.py''], git_added)] [''r'', ''staged.py'']
     \<noteq> Some git_modified"
  by code_simp

text \<open>
  The lines of the specification: Modified, Untracked, Ignored and MergeConflict, and the
  \<^verbatim>\<open>.git\<close> directory that no line names.
\<close>

theorem run_git_status_parses_witness:
  "\<exists>result warned.
     run_git_status [''r'']
       (Completed 0 ['' M src/foo.py'', ''?? newfile.txt'', ''!! build/'', ''UU conflict.py'', ''DD gone''])
       = Inr (result, warned)
     \<and> warned = [''DD gone'']
     \<and> map_of result [''r'', ''src'', ''foo.py''] = Some git_modified
     \<and> map_of result [''r'', ''newfile.txt''] = Some git_untracked
     \<and> map_of result [''r'', ''build''] = Some git_ignored
     \<and> map_of result [''r'', ''conflict.py''] = Some git_mergeconflict
     \<and> map_of result [''r'', ''.git''] = Some git_ignored
     \<and> map_of result [''r'', ''gone''] = None"
proof -
  let ?lines = "['' M src/foo.py'', ''?? newfile.txt'', ''!! build/'', ''UU conflict.py'', ''DD gone'']"
  let ?look = "\<lambda>p. (case find (names [''r''] p) (rev ?lines) of
                      Some l \<Rightarrow> line_status l
                    | None \<Rightarrow> if p = truediv [''r''] ''.git'' then Some git_ignored else None)"
  have len: "\<forall>line \<in> set ?lines. 2 \<le> length line" by simp
  from run_git_status_parses [OF len, of "[''r'']"] obtain result warned where
    r: "run_git_status [''r''] (Completed 0 ?lines) = Inr (result, warned)"
       "warned = filter (\<lambda>l. line_status l = None) ?lines"
       "\<forall>p. map_of result p = ?look p"
    by blast
  have w: "filter (\<lambda>l. line_status l = None) ?lines = [''DD gone'']" by code_simp
  have 1: "?look [''r'', ''src'', ''foo.py''] = Some git_modified" by code_simp
  have 2: "?look [''r'', ''newfile.txt''] = Some git_untracked" by code_simp
  have 3: "?look [''r'', ''build''] = Some git_ignored" by code_simp
  have 4: "?look [''r'', ''conflict.py''] = Some git_mergeconflict" by code_simp
  have 5: "?look [''r'', ''.git''] = Some git_ignored" by code_simp
  have 6: "?look [''r'', ''gone''] = None" by code_simp
  show ?thesis
    using r(1) r(2) r(3) [rule_format, of "[''r'', ''src'', ''foo.py'']"]
      r(3) [rule_format, of "[''r'', ''newfile.txt'']"]
      r(3) [rule_format, of "[''r'', ''build'']"]
      r(3) [rule_format, of "[''r'', ''conflict.py'']"]
      r(3) [rule_format, of "[''r'', ''.git'']"]
      r(3) [rule_format, of "[''r'', ''gone'']"]
    by (simp only: w 1 2 3 4 5 6) simp
qed


subsection \<open>The git tag of a child\<close>



lemma child_tags_eq:
  "child_tags gs cp = {s \<in> {git_added, git_modified, git_mergeconflict}.
      \<exists>sub. (sub, s) \<in> set gs \<and> cp \<in> set (parents sub)}"
  unfolding child_tags_def using prefix_str_path by force

lemma aggregate_child_tags:
  "aggregate (child_tags gs cp) = Inr
     (if \<exists>sub. (sub, git_mergeconflict) \<in> set gs \<and> cp \<in> set (parents sub) then {git_mergeconflict}
      else if \<exists>sub. (sub, git_modified) \<in> set gs \<and> cp \<in> set (parents sub) then {git_modified}
      else if \<exists>sub. (sub, git_added) \<in> set gs \<and> cp \<in> set (parents sub) then {git_added}
      else {})"
proof -
  let ?T = "child_tags gs cp"
  have sub: "?T \<subseteq> {git_added, git_modified, git_mergeconflict}" by (auto simp: child_tags_eq)
  have mem: "\<And>s. s \<in> {git_added, git_modified, git_mergeconflict} \<Longrightarrow>
      s \<in> ?T \<longleftrightarrow> (\<exists>sub. (sub, s) \<in> set gs \<and> cp \<in> set (parents sub))"
    by (auto simp: child_tags_eq)
  show ?thesis
  proof (cases "git_mergeconflict \<in> ?T")
    case True
    then show ?thesis using mem [of git_mergeconflict] by (simp add: aggregate_def)
  next
    case mc: False
    show ?thesis
    proof (cases "git_modified \<in> ?T")
      case True
      then show ?thesis using mc mem [of git_mergeconflict] mem [of git_modified]
        by (simp add: aggregate_def)
    next
      case md: False
      from sub mc md have T: "?T \<subseteq> {git_added}" by blast
      then have "?T = {} \<or> ?T = {git_added}" by blast
      then show ?thesis using mc md mem [of git_mergeconflict] mem [of git_modified] mem [of git_added]
        by (auto simp: aggregate_def)
    qed
  qed
qed

text \<open>
  Claim C3. Let the project root that encloses a child be the first path of the
  chain child, parent, grandparent, ... that is a project root (\<open>i\<close> levels up), and let
  the status map of that project have an entry at some path of the chain up to that root.
  Then the child takes the status of the first such path (\<open>j\<close> levels up, no entry nearer
  to the child): its new tags are its old tags without the git tags, and that status. For
  \<open>j = 0\<close> this is the entry at the child's own path, which wins over every entry of an
  ancestor and over the statuses found below the child.
\<close>

theorem closest_entry_wins:
  assumes "i \<le> length child_path" and "ancestor child_path i \<in> project_roots"
    and "\<forall>k<i. ancestor child_path k \<notin> project_roots"
    and "statuses (ancestor child_path i) = Some git_status"
    and "j \<le> i" and "map_of git_status (ancestor child_path j) = Some s"
    and "\<forall>k<j. map_of git_status (ancestor child_path k) = None"
  shows "new_tags_of project_roots statuses child_path old_tags
         = Inr ({t \<in> old_tags. \<not> is_git t} \<union> {Tag_git s})"
proof -
  let ?chain = "map (ancestor child_path) [0..<Suc i]"
  have chain: "relevant_parents project_roots child_path = Inr ?chain"
    using assms(1-3) by (rule relevant_parents_found)
  have last: "last ?chain = ancestor child_path i"
    by (simp add: last_map del: upt_Suc)
  have nth: "\<And>k. k \<le> i \<Longrightarrow> ?chain ! k = ancestor child_path k"
    by (metis add_0 le_imp_less_Suc nth_map_upt diff_zero)
  have "status_tags git_status child_path ?chain = Inr {s}"
  proof (rule status_tags_found [of j])
    show "j < length ?chain" using assms(5) by simp
    show "map_of git_status (?chain ! j) = Some s" using assms(5,6) nth by simp
    show "\<forall>k<j. map_of git_status (?chain ! k) = None" using assms(5,7) nth by simp
  qed
  then show ?thesis using chain last assms(4) by (simp add: new_tags_of_def del: upt_Suc)
qed

text \<open>
  Claim C1 (as amended). When no path of the chain from the child up to its project root has
  an entry in the project's status map, the tag comes from the entries below the child that
  are Added, Modified or MergeConflict, all others being left out: MergeConflict if one of
  them is MergeConflict, else Modified if one is Modified, else Added if one is Added, else
  no git tag. So entries Untracked and Untracked below the child give no tag, as do
  Untracked and Ignored, and Modified and Untracked give Modified. The kind of the child
  plays no part.
\<close>

theorem aggregated_status:
  assumes "i \<le> length child_path" and "ancestor child_path i \<in> project_roots"
    and "\<forall>k<i. ancestor child_path k \<notin> project_roots"
    and "statuses (ancestor child_path i) = Some git_status"
    and "\<forall>k\<le>i. map_of git_status (ancestor child_path k) = None"
  shows "new_tags_of project_roots statuses child_path old_tags
         = Inr ({t \<in> old_tags. \<not> is_git t} \<union>
             (if \<exists>sub. (sub, git_mergeconflict) \<in> set git_status \<and> child_path \<in> set (parents sub)
              then {Tag_git git_mergeconflict}
              else if \<exists>sub. (sub, git_modified) \<in> set git_status \<and> child_path \<in> set (parents sub)
              then {Tag_git git_modified}
              else if \<exists>sub. (sub, git_added) \<in> set git_status \<and> child_path \<in> set (parents sub)
              then {Tag_git git_added}
              else {}))"
proof -
  let ?chain = "map (ancestor child_path) [0..<Suc i]"
  let ?S = "if \<exists>sub. (sub, git_mergeconflict) \<in> set git_status \<and> child_path \<in> set (parents sub)
      then {git_mergeconflict}
      else if \<exists>sub. (sub, git_modified) \<in> set git_status \<and> child_path \<in> set (parents sub)
      then {git_modified}
      else if \<exists>sub. (sub, git_added) \<in> set git_status \<and> child_path \<in> set (parents sub)
      then {git_added}
      else {}"
  let ?R = "if \<exists>sub. (sub, git_mergeconflict) \<in> set git_status \<and> child_path \<in> set (parents sub)
      then {Tag_git git_mergeconflict}
      else if \<exists>sub. (sub, git_modified) \<in> set git_status \<and> child_path \<in> set (parents sub)
      then {Tag_git git_modified}
      else if \<exists>sub. (sub, git_added) \<in> set git_status \<and> child_path \<in> set (parents sub)
      then {Tag_git git_added}
      else {}"
  have chain: "relevant_parents project_roots child_path = Inr ?chain"
    using assms(1-3) by (rule relevant_parents_found)
  have last: "last ?chain = ancestor child_path i"
    by (simp add: last_map del: upt_Suc)
  have "\<forall>q \<in> set ?chain. map_of git_status q = None"
    using assms(5) by (auto simp del: upt_Suc)
  then have "status_tags git_status child_path ?chain = aggregate (child_tags git_status child_path)"
    by (rule status_tags_none)
  then have "new_tags_of project_roots statuses child_path old_tags
      = Inr ({t \<in> old_tags. \<not> is_git t} \<union> Tag_git ` ?S)"
    using chain last assms(4)
    by (simp only: new_tags_of_def aggregate_child_tags sum.case option.case)
  moreover have "Tag_git ` ?S = ?R" by simp
  ultimately show ?thesis by (simp only:)
qed


text \<open>Modified and Untracked below a directory give Modified.\<close>

theorem aggregated_status_witness:
  "new_tags_of {[''p'']}
     (Map.empty([''p''] \<mapsto> [([''p'', ''d'', ''x''], git_modified), ([''p'', ''d'', ''y''], git_untracked)]))
     [''p'', ''d''] {Tag_dir, Tag_git git_untracked} = Inr {Tag_dir, Tag_git git_modified}"
proof -
  let ?m = "[([''p'', ''d'', ''x''], git_modified), ([''p'', ''d'', ''y''], git_untracked)]"
  have below: "[''p'', ''d''] \<in> set (parents [''p'', ''d'', ''x''])" by code_simp
  have old: "{t \<in> {Tag_dir, Tag_git git_untracked}. \<not> is_git t} = {Tag_dir}" by auto
  have "new_tags_of {[''p'']} (Map.empty([''p''] \<mapsto> ?m)) [''p'', ''d''] {Tag_dir, Tag_git git_untracked}
      = Inr ({t \<in> {Tag_dir, Tag_git git_untracked}. \<not> is_git t} \<union>
             (if \<exists>sub. (sub, git_mergeconflict) \<in> set ?m \<and> [''p'', ''d''] \<in> set (parents sub)
              then {Tag_git git_mergeconflict}
              else if \<exists>sub. (sub, git_modified) \<in> set ?m \<and> [''p'', ''d''] \<in> set (parents sub)
              then {Tag_git git_modified}
              else if \<exists>sub. (sub, git_added) \<in> set ?m \<and> [''p'', ''d''] \<in> set (parents sub)
              then {Tag_git git_added}
              else {}))"
    by (rule aggregated_status [where i = 1 and git_status = ?m])
       (simp_all add: ancestor_def le_Suc_eq)
  then show ?thesis using below old by auto
qed

text \<open>A file that is Modified in an Ignored directory is Modified.\<close>

theorem closest_entry_wins_witness:
  "new_tags_of {[''p'']}
     (Map.empty([''p''] \<mapsto> [([''p'', ''d''], git_ignored), ([''p'', ''d'', ''f''], git_modified)]))
     [''p'', ''d'', ''f''] {Tag_file, Tag_git git_added} = Inr {Tag_file, Tag_git git_modified}"
proof -
  let ?m = "[([''p'', ''d''], git_ignored), ([''p'', ''d'', ''f''], git_modified)]"
  have old: "{t \<in> {Tag_file, Tag_git git_added}. \<not> is_git t} = {Tag_file}" by auto
  have "new_tags_of {[''p'']} (Map.empty([''p''] \<mapsto> ?m)) [''p'', ''d'', ''f''] {Tag_file, Tag_git git_added}
      = Inr ({t \<in> {Tag_file, Tag_git git_added}. \<not> is_git t} \<union> {Tag_git git_modified})"
    by (rule closest_entry_wins [where i = 2 and j = 0 and git_status = ?m])
       (simp_all add: ancestor_def less_Suc_eq numeral_2_eq_2)
  then show ?thesis using old by auto
qed

text \<open>
  Claim C1, counterexample. Two Untracked entries below a directory, and nothing else: one
  distinct status, yet the directory takes no git tag.
\<close>

theorem untracked_counterexample:
  "new_tags_of {[''p'']}
     (Map.empty([''p''] \<mapsto> [([''p'', ''d'', ''x''], git_untracked), ([''p'', ''d'', ''y''], git_untracked)]))
     [''p'', ''d''] {Tag_dir} = Inr {Tag_dir}"
  by code_simp


lemma collect_parents_error:
  "collect_parents roots acc cur rest = Inl e \<Longrightarrow> e = StopIteration"
proof (induction rest arbitrary: acc cur)
  case Nil
  then show ?case by (simp split: if_splits)
next
  case (Cons a rest)
  from Cons.prems have "collect_parents roots (acc @ [a]) a rest = Inl e"
    by (simp split: if_splits)
  then show ?case by (rule Cons.IH)
qed

lemma aggregate_total: "\<exists>T. aggregate (child_tags gs cp) = Inr T"
  by (simp add: aggregate_child_tags)

lemma status_tags_total: "\<exists>T. status_tags gs cp chain = Inr T"
  by (induction chain) (simp_all add: aggregate_total split: option.splits)

text \<open>
  Claim C10. The statuses found below a child are among Added, Modified and
  MergeConflict; when neither MergeConflict nor Modified is among them, they are within
  \<open>{Added}\<close>, at most one status, so that the assertion of line 264 holds: the aggregation
  returns a result, and computing the new tags never raises an assertion error. Entries that
  are Untracked or Ignored contribute nothing: without them the statuses found are the
  same.
\<close>

theorem aggregation_assertion_holds:
  "child_tags git_status child_path \<subseteq> {git_added, git_modified, git_mergeconflict}
   \<and> (git_mergeconflict \<notin> child_tags git_status child_path
        \<and> git_modified \<notin> child_tags git_status child_path
      \<longrightarrow> child_tags git_status child_path \<subseteq> {git_added}
          \<and> card (child_tags git_status child_path) \<le> 1)
   \<and> (\<exists>T. aggregate (child_tags git_status child_path) = Inr T)
   \<and> new_tags_of project_roots statuses child_path old_tags \<noteq> Inl AssertionError
   \<and> child_tags (filter (\<lambda>(sub, s). s \<noteq> git_untracked \<and> s \<noteq> git_ignored) git_status) child_path
       = child_tags git_status child_path"
proof -
  let ?T = "child_tags git_status child_path"
  have sub: "?T \<subseteq> {git_added, git_modified, git_mergeconflict}"
    by (auto simp: child_tags_eq)
  have one: "git_mergeconflict \<notin> ?T \<and> git_modified \<notin> ?T
      \<longrightarrow> ?T \<subseteq> {git_added} \<and> card ?T \<le> 1"
  proof
    assume "git_mergeconflict \<notin> ?T \<and> git_modified \<notin> ?T"
    with sub have "?T \<subseteq> {git_added}" by blast
    then show "?T \<subseteq> {git_added} \<and> card ?T \<le> 1"
      using card_subset_singleton [of ?T git_added] by simp
  qed
  have err: "new_tags_of project_roots statuses child_path old_tags \<noteq> Inl AssertionError"
  proof
    assume a: "new_tags_of project_roots statuses child_path old_tags = Inl AssertionError"
    show False
    proof (cases "relevant_parents project_roots child_path")
      case (Inl e)
      then have "e = StopIteration"
        unfolding relevant_parents_def by (rule collect_parents_error)
      with a Inl show False by (simp add: new_tags_of_def)
    next
      case (Inr chain)
      show False
      proof (cases "statuses (last chain)")
        case None
        with a Inr show False by (simp add: new_tags_of_def)
      next
        case (Some m)
        obtain T where "status_tags m child_path chain = Inr T"
          using status_tags_total by blast
        with a Inr Some show False by (simp add: new_tags_of_def)
      qed
    qed
  qed
  have flt: "child_tags (filter (\<lambda>(sub, s). s \<noteq> git_untracked \<and> s \<noteq> git_ignored) git_status) child_path = ?T"
    by (auto simp: child_tags_eq)
  have tot: "\<exists>T. aggregate ?T = Inr T" by (rule aggregate_total)
  from sub one tot err flt show ?thesis by (intro conjI)
qed

text \<open>Untracked, Added, Ignored and Added below a directory: only Added is found.\<close>

theorem aggregation_assertion_holds_witness:
  "child_tags [([''p'', ''d'', ''x''], git_untracked), ([''p'', ''d'', ''y''], git_added),
               ([''p'', ''d'', ''z''], git_ignored), ([''p'', ''d'', ''w''], git_added)] [''p'', ''d'']
     \<subseteq> {git_added}
   \<and> card (child_tags [([''p'', ''d'', ''x''], git_untracked), ([''p'', ''d'', ''y''], git_added),
               ([''p'', ''d'', ''z''], git_ignored), ([''p'', ''d'', ''w''], git_added)] [''p'', ''d'']) \<le> 1"
proof -
  let ?m = "[([''p'', ''d'', ''x''], git_untracked), ([''p'', ''d'', ''y''], git_added),
             ([''p'', ''d'', ''z''], git_ignored), ([''p'', ''d'', ''w''], git_added)]"
  have eq: "child_tags ?m [''p'', ''d''] = {git_added}"
    by code_simp
  have pre: "git_mergeconflict \<notin> child_tags ?m [''p'', ''d'']
      \<and> git_modified \<notin> child_tags ?m [''p'', ''d'']"
    by (simp only: eq) simp
  have imp: "git_mergeconflict \<notin> child_tags ?m [''p'', ''d'']
        \<and> git_modified \<notin> child_tags ?m [''p'', ''d'']
      \<longrightarrow> child_tags ?m [''p'', ''d''] \<subseteq> {git_added}
          \<and> card (child_tags ?m [''p'', ''d'']) \<le> 1"
    using aggregation_assertion_holds [of ?m "[''p'', ''d'']" "{}" Map.empty "{}"]
    by (elim conjE)
  from imp pre show ?thesis by (rule mp)
qed

subsection \<open>Items and the loop over the children\<close>

lemma paths_of_get_path:
  "paths_of cs = Inr pairs \<Longrightarrow> list_all (\<lambda>(p, c). get_path c = Inr p) pairs"
  by (induction cs arbitrary: pairs) (auto split: sum.splits)

lemma paths_of_total:
  "list_all (\<lambda>c. \<exists>p. get_path c = Inr p) cs \<Longrightarrow> \<exists>pairs. paths_of cs = Inr pairs"
  by (induction cs) auto

lemma dict_set_fresh: "k \<notin> fst ` set d \<Longrightarrow> dict_set d k v = d @ [(k, v)]"
  by (induction d k v rule: dict_set.induct) auto

lemma fold_dict_set_distinct:
  "distinct (map fst (d0 @ pairs)) \<Longrightarrow> fold (\<lambda>(k, v) d. dict_set d k v) pairs d0 = d0 @ pairs"
proof (induction pairs arbitrary: d0)
  case Nil
  then show ?case by simp
next
  case (Cons kv pairs)
  obtain k v where kv: "kv = (k, v)" by (cases kv)
  from Cons.prems kv have fresh: "k \<notin> fst ` set d0" by auto
  from Cons.prems kv have "distinct (map fst ((d0 @ [(k, v)]) @ pairs))" by simp
  then have "fold (\<lambda>(k, v) d. dict_set d k v) pairs (d0 @ [(k, v)]) = (d0 @ [(k, v)]) @ pairs"
    by (rule Cons.IH)
  then show ?case using fresh kv by (simp add: dict_set_fresh)
qed

lemma dict_of_distinct: "distinct (map fst pairs) \<Longrightarrow> dict_of pairs = pairs"
  using fold_dict_set_distinct [of "[]" pairs] by (simp add: dict_of_def)

lemma rebuild_distinct:
  "distinct (map fst pairs) \<Longrightarrow> map fst processed = map fst pairs \<Longrightarrow>
   rebuild pairs processed = map snd processed"
proof -
  have gen: "distinct (map fst (pre @ pairs)) \<Longrightarrow> map fst post = map fst pairs \<Longrightarrow>
      rebuild pairs (pre @ post) = map snd post" for pre post :: "(path \<times> item) list"
  proof (induction pairs arbitrary: pre post)
    case Nil
    then show ?case by simp
  next
    case (Cons pc pairs)
    obtain p c where pc: "pc = (p, c)" by (cases pc)
    from Cons.prems(2) pc obtain c' post' where post: "post = (p, c') # post'"
      and fst': "map fst post' = map fst pairs"
      by (cases post) auto
    from Cons.prems(1) pc have notin: "p \<notin> fst ` set pairs" and notpre: "p \<notin> fst ` set pre"
      by auto
    from notpre have look: "map_of (pre @ post) p = Some c'"
      using post by (simp add: map_add_Some_iff map_of_eq_None_iff)
    from Cons.prems(1) pc have "distinct (map fst ((pre @ [(p, c')]) @ pairs))" by simp
    then have "rebuild pairs ((pre @ [(p, c')]) @ post') = map snd post'"
      using fst' by (rule Cons.IH)
    then show ?case using pc post notin look by simp
  qed
  assume "distinct (map fst pairs)" "map fst processed = map fst pairs"
  then show ?thesis using gen [of "[]" processed] by simp
qed

lemma open_and_refresh_directory_keeps:
  assumes "open_and_refresh_directory fs gs tr dp dir = Inr (dir', log)"
  shows "item_values dir' = item_values dir \<and> item_tags dir' = item_tags dir"
proof (cases "prepare fs dp dir")
  case (Inl e)
  with assms show ?thesis by (simp add: open_and_refresh_directory.simps)
next
  case (Inr prep)
  show ?thesis
  proof (cases prep)
    case (Returned d l)
    with Inr assms have d: "d = dir'" by (simp add: open_and_refresh_directory.simps)
    from Inr Returned have "item_values d = item_values dir \<and> item_tags d = item_tags dir"
      by (auto simp: prepare_def Let_def insert_dummy_def split: sum.splits option.splits if_splits)
    with d show ?thesis by simp
  next
    case (Listed pairs path2id l)
    with Inr assms obtain processed where "finish dp dir pairs processed = Inr dir'"
      by (auto simp: open_and_refresh_directory.simps split: sum.splits)
    then show ?thesis
      by (auto simp: finish_def split: option.splits sum.splits if_splits)
  qed
qed

lemma refresh_children_refreshed:
  "refresh_children fs gs roots l = Inr (l', log) \<Longrightarrow> list_all2 (refreshed roots gs) l l'"
proof (induction l arbitrary: l' log)
  case Nil
  then show ?case by (simp add: open_and_refresh_directory.simps)
next
  case (Cons pc l)
  obtain p c where pc: "pc = (p, c)" by (cases pc)
  from Cons.prems pc obtain nt where nt: "new_tags_of roots gs p (item_tags c) = Inr nt"
    by (auto simp: open_and_refresh_directory.simps split: sum.splits)
  let ?c' = "Item (item_values c) nt (item_children c)"
  let ?sub = "if Tag_dir \<in> nt \<and> \<not> contains_dummy ?c'
              then open_and_refresh_directory fs gs roots (Some p) ?c' else Inr (?c', [])"
  from Cons.prems pc nt obtain c'' log' where sub: "?sub = Inr (c'', log')"
    by (auto simp: open_and_refresh_directory.simps split: sum.splits)
  from Cons.prems pc nt sub obtain rest' log'' where
    rest: "refresh_children fs gs roots l = Inr (rest', log'')" and l': "l' = (p, c'') # rest'"
    by (auto simp: open_and_refresh_directory.simps split: sum.splits)
  have "item_values c'' = item_values c \<and> item_tags c'' = nt"
  proof (cases "Tag_dir \<in> nt \<and> \<not> contains_dummy ?c'")
    case True
    with sub have "open_and_refresh_directory fs gs roots (Some p) ?c' = Inr (c'', log')" by simp
    from open_and_refresh_directory_keeps [OF this] show ?thesis by simp
  next
    case False
    with sub show ?thesis by auto
  qed
  then have "refreshed roots gs (p, c) (p, c'')" using nt by (simp add: refreshed_def)
  moreover have "list_all2 (refreshed roots gs) l rest'" using rest by (rule Cons.IH)
  ultimately show ?case using pc l' by simp
qed

lemma paths_of_no_dummy:
  assumes "paths_of (item_children dir) = Inr pairs"
  shows "\<not> contains_dummy dir"
proof
  assume "contains_dummy dir"
  then obtain c where c: "item_children dir = [c]" "Tag_dummy \<in> item_tags c"
    by (auto simp: contains_dummy_def split: list.splits)
  then have "get_path c = Inl AssertionError" by (simp add: get_path_def)
  with assms c(1) show False by simp
qed

lemma project_refresh:
  assumes p: "paths_of cs = Inr pairs" and d: "distinct (map fst pairs)"
    and r: "open_and_refresh_directory fs gs tr None (Item v t cs) = Inr (root', log)"
  shows "\<exists>processed. refresh_children fs gs (fst ` set pairs) pairs = Inr (processed, log)
           \<and> root' = Item v t (map snd processed)"
proof -
  have nd: "\<not> contains_dummy (Item v t cs)" using p by (intro paths_of_no_dummy) simp
  have prep: "prepare fs None (Item v t cs) = Inr (Listed pairs pairs [])"
    using p nd d by (simp add: prepare_def Let_def dict_of_distinct)
  from r prep obtain processed log' where
    g: "refresh_children fs gs (fst ` set pairs) pairs = Inr (processed, log')"
    and f: "finish None (Item v t cs) pairs processed = Inr root'" and l: "log = [] @ log'"
    by (auto simp: open_and_refresh_directory.simps split: sum.splits)
  from g have "list_all2 (refreshed (fst ` set pairs) gs) pairs processed"
    by (rule refresh_children_refreshed)
  then have "map fst processed = map fst pairs"
    by (induction pairs processed rule: list_all2_induct) (simp_all add: refreshed_def)
  with d have "rebuild pairs processed = map snd processed" by (intro rebuild_distinct)
  with f have "root' = Item v t (map snd processed)" by (simp add: finish_def)
  with g l show ?thesis by simp
qed

text \<open>
  Claim C9. When the thread has succeeded and the item ids of the projects differ
  from those of the snapshot \<^verbatim>\<open>paths\<close>, \<^verbatim>\<open>done_callback\<close> leaves the state as it is, the
  status maps included, and calls nothing on the tree. When they are equal, the new status
  maps are installed and \<^verbatim>\<open>open_and_refresh_directory\<close> runs on the whole forest with them;
  if it returns, and the projects have paths, all different, every project keeps its item id
  and its place and has the tags computed from the new maps.
\<close>

theorem stale_results_are_dropped:
  "(set (map fst (projects tree)) \<noteq> fst ` set paths \<longrightarrow>
      done_callback fs paths (Succeeded result) tree = Inr (tree, []))
   \<and> (set (map fst (projects tree)) = fst ` set paths \<longrightarrow>
      done_callback fs paths (Succeeded result) tree =
        (case open_and_refresh_directory fs result {} None (Item None {} (map snd (projects tree))) of
           Inl e \<Rightarrow> Inl e
         | Inr (root, log) \<Rightarrow>
             Inr (tree\<lparr>git_statuses := result,
                       projects := zip (map fst (projects tree)) (item_children root)\<rparr>, log)))
   \<and> (\<forall>pairs tree' log.
        set (map fst (projects tree)) = fst ` set paths
        \<and> paths_of (map snd (projects tree)) = Inr pairs \<and> distinct (map fst pairs)
        \<and> done_callback fs paths (Succeeded result) tree = Inr (tree', log) \<longrightarrow>
          git_statuses tree' = result
          \<and> map fst (projects tree') = map fst (projects tree)
          \<and> list_all2 (refreshed (fst ` set pairs) result) pairs
               (zip (map fst pairs) (map snd (projects tree'))))"
proof (intro conjI impI allI)
  assume "set (map fst (projects tree)) \<noteq> fst ` set paths"
  then show "done_callback fs paths (Succeeded result) tree = Inr (tree, [])"
    by (simp add: done_callback_def)
next
  assume "set (map fst (projects tree)) = fst ` set paths"
  then show "done_callback fs paths (Succeeded result) tree =
        (case open_and_refresh_directory fs result {} None (Item None {} (map snd (projects tree))) of
           Inl e \<Rightarrow> Inl e
         | Inr (root, log) \<Rightarrow>
             Inr (tree\<lparr>git_statuses := result,
                       projects := zip (map fst (projects tree)) (item_children root)\<rparr>, log))"
    by (simp add: done_callback_def)
next
  fix pairs tree' log
  assume a: "set (map fst (projects tree)) = fst ` set paths
        \<and> paths_of (map snd (projects tree)) = Inr pairs \<and> distinct (map fst pairs)
        \<and> done_callback fs paths (Succeeded result) tree = Inr (tree', log)"
  then have eq: "set (map fst (projects tree)) = fst ` set paths"
    and p: "paths_of (map snd (projects tree)) = Inr pairs" and d: "distinct (map fst pairs)"
    and dc: "done_callback fs paths (Succeeded result) tree = Inr (tree', log)"
    by simp_all
  from dc eq obtain root where
    r: "open_and_refresh_directory fs result {} None (Item None {} (map snd (projects tree))) = Inr (root, log)"
    and t: "tree' = tree\<lparr>git_statuses := result,
                       projects := zip (map fst (projects tree)) (item_children root)\<rparr>"
    by (auto simp: done_callback_def split: sum.splits)
  from project_refresh [OF p d r] obtain processed where
    g: "refresh_children fs result (fst ` set pairs) pairs = Inr (processed, log)"
    and root: "root = Item None {} (map snd processed)"
    by blast
  from g have la: "list_all2 (refreshed (fst ` set pairs) result) pairs processed"
    by (rule refresh_children_refreshed)
  then have len: "length processed = length pairs" by (simp add: list_all2_lengthD)
  have lp: "length pairs = length (projects tree)"
    using paths_of_snd [OF p] by (metis length_map)
  from la have fsts: "map fst processed = map fst pairs"
    by (induction pairs processed rule: list_all2_induct) (simp_all add: refreshed_def)
  have projs: "projects tree' = zip (map fst (projects tree)) (map snd processed)"
    using t root by simp
  show "git_statuses tree' = result" using t by simp
  show "map fst (projects tree') = map fst (projects tree)"
    using projs len lp by simp
  have "map snd (projects tree') = map snd processed"
    using projs len lp by simp
  then have "zip (map fst pairs) (map snd (projects tree')) = processed"
    using fsts by (metis zip_map_fst_snd)
  with la show "list_all2 (refreshed (fst ` set pairs) result) pairs
               (zip (map fst pairs) (map snd (projects tree')))"
    by simp
qed

subsection \<open>The projects\<close>

definition evicts :: "filesystem \<Rightarrow> tab list \<Rightarrow> path \<Rightarrow> nat \<Rightarrow> bool" where
  "evicts fs tabs p count \<longleftrightarrow>
     \<not> is_dir fs p \<or> (PROJECT_AUTOCLOSE_COUNT < count \<and> \<not> has_open_file tabs p)"

fun scan :: "filesystem \<Rightarrow> tab list \<Rightarrow> (nat \<times> item) list \<Rightarrow> nat \<Rightarrow> (nat \<times> item) list" where
  "scan fs tabs [] n = []"
| "scan fs tabs ((i, c) # rest) n =
     (case get_path c of
        Inl e \<Rightarrow> []
      | Inr p \<Rightarrow>
          if evicts fs tabs p (Suc (length rest + n))
          then scan fs tabs rest n
          else scan fs tabs rest (Suc n) @ [(i, c)])"

lemma scan_in: "y \<in> set (scan fs tabs todo n) \<Longrightarrow> y \<in> set todo"
proof (induction todo arbitrary: n)
  case Nil
  then show ?case by simp
next
  case (Cons x todo)
  obtain i c where x: "x = (i, c)" by (cases x)
  show ?case
  proof (cases "get_path c")
    case (Inl e)
    with Cons.prems x show ?thesis by simp
  next
    case (Inr p)
    show ?thesis
    proof (cases "evicts fs tabs p (Suc (length todo + n))")
      case True
      with Cons.prems Inr x have "y \<in> set (scan fs tabs todo n)" by simp
      then show ?thesis using Cons.IH by simp
    next
      case False
      with Cons.prems Inr x have "y \<in> set (scan fs tabs todo (Suc n)) \<or> y = x" by auto
      then show ?thesis using Cons.IH by auto
    qed
  qed
qed

lemma scan_subset: "set (scan fs tabs todo n) \<subseteq> set todo"
  using scan_in by blast

lemma scan_subseq: "subseq (scan fs tabs todo n) (rev todo)"
proof (induction todo arbitrary: n)
  case Nil
  then show ?case by simp
next
  case (Cons x todo)
  obtain i c where x: "x = (i, c)" by (cases x)
  have a: "subseq (scan fs tabs todo n) (rev todo @ [x])"
    using Cons.IH [of n] by (rule subseq_rev_drop_many)
  have b: "subseq (scan fs tabs todo (Suc n) @ [x]) (rev todo @ [x])"
    using Cons.IH [of "Suc n"] by (simp add: list_emb_append_mono)
  show ?case using a b x by (auto split: sum.splits)
qed

lemma scan_length: "length (scan fs tabs todo n) \<le> length todo"
  using scan_subseq [of fs tabs todo n] by (metis length_rev list_emb_length)

lemma filter_other: "i \<notin> fst ` set xs \<Longrightarrow> filter (\<lambda>(j, c). j \<noteq> i) xs = xs"
  by (induction xs) auto

lemma hide_loop_scan:
  "distinct (map fst (rev todo @ K)) \<Longrightarrow> list_all (\<lambda>(i, c). \<exists>p. get_path c = Inr p) todo \<Longrightarrow>
   hide_loop fs tabs todo (rev todo @ K) = Inr (scan fs tabs todo (length K) @ K)"
proof (induction todo arbitrary: K)
  case Nil
  then show ?case by simp
next
  case (Cons x todo)
  obtain i c where x: "x = (i, c)" by (cases x)
  from Cons.prems(2) x obtain p where p: "get_path c = Inr p" by auto
  from Cons.prems(2) have rest_ok: "list_all (\<lambda>(i, c). \<exists>p. get_path c = Inr p) todo" by simp
  from Cons.prems(1) x have fresh: "i \<notin> fst ` set (rev todo @ K)"
    by auto
  from Cons.prems(1) x have d1: "distinct (map fst (rev todo @ K))" by auto
  from Cons.prems(1) x have d2: "distinct (map fst (rev todo @ (x # K)))" by auto
  have del: "filter (\<lambda>(j, c). j \<noteq> i) (rev (x # todo) @ K) = rev todo @ K"
    using fresh x filter_other [of i "rev todo @ K"] by simp
  have len: "length (rev (x # todo) @ K) = Suc (length todo + length K)" by simp
  show ?case
  proof (cases "evicts fs tabs p (Suc (length todo + length K))")
    case True
    then have "\<not> is_dir fs p
        \<or> (PROJECT_AUTOCLOSE_COUNT < length (rev (x # todo) @ K) \<and> \<not> has_open_file tabs p)"
      by (simp add: evicts_def)
    then have "hide_loop fs tabs (x # todo) (rev (x # todo) @ K)
        = hide_loop fs tabs todo (filter (\<lambda>(j, c). j \<noteq> i) (rev (x # todo) @ K))"
      unfolding x hide_loop.simps p sum.case by (rule if_P)
    also have "\<dots> = hide_loop fs tabs todo (rev todo @ K)" by (simp only: del)
    also have "\<dots> = Inr (scan fs tabs todo (length K) @ K)" using d1 rest_ok by (rule Cons.IH)
    finally show ?thesis using True p x by simp
  next
    case False
    then have "\<not> (\<not> is_dir fs p
        \<or> (PROJECT_AUTOCLOSE_COUNT < length (rev (x # todo) @ K) \<and> \<not> has_open_file tabs p))"
      by (simp add: evicts_def)
    then have "hide_loop fs tabs (x # todo) (rev (x # todo) @ K)
        = hide_loop fs tabs todo (rev (x # todo) @ K)"
      unfolding x hide_loop.simps p sum.case by (rule if_not_P)
    also have "\<dots> = hide_loop fs tabs todo (rev todo @ (x # K))" by simp
    also have "\<dots> = Inr (scan fs tabs todo (length (x # K)) @ (x # K))"
      using d2 rest_ok by (rule Cons.IH)
    finally show ?thesis using False p x by simp
  qed
qed

lemma scan_cap:
  "length (scan fs tabs todo n) + n \<le> PROJECT_AUTOCLOSE_COUNT
   \<or> list_all (\<lambda>(i, c). \<exists>p. get_path c = Inr p \<and> has_open_file tabs p) (scan fs tabs todo n)"
proof (induction todo arbitrary: n)
  case Nil
  then show ?case by simp
next
  case (Cons x todo)
  obtain i c where x: "x = (i, c)" by (cases x)
  show ?case
  proof (cases "get_path c")
    case (Inl e)
    with x show ?thesis by simp
  next
    case (Inr p)
    show ?thesis
    proof (cases "evicts fs tabs p (Suc (length todo + n))")
      case True
      then show ?thesis using Cons.IH [of n] Inr x by simp
    next
      case False
      then have k: "has_open_file tabs p \<or> Suc (length todo + n) \<le> PROJECT_AUTOCLOSE_COUNT"
        by (auto simp: evicts_def)
      have s: "scan fs tabs (x # todo) n = scan fs tabs todo (Suc n) @ [x]"
        using False Inr x by simp
      from Cons.IH [of "Suc n"] show ?thesis
      proof
        assume "length (scan fs tabs todo (Suc n)) + Suc n \<le> PROJECT_AUTOCLOSE_COUNT"
        then show ?thesis using s by simp
      next
        assume all: "list_all (\<lambda>(i, c). \<exists>p. get_path c = Inr p \<and> has_open_file tabs p) (scan fs tabs todo (Suc n))"
        from k show ?thesis
        proof
          assume "has_open_file tabs p"
          then show ?thesis using all s Inr x by simp
        next
          assume "Suc (length todo + n) \<le> PROJECT_AUTOCLOSE_COUNT"
          moreover have "length (scan fs tabs todo (Suc n)) \<le> length todo" by (rule scan_length)
          ultimately show ?thesis using s by simp
        qed
      qed
    qed
  qed
qed

lemma scan_member:
  assumes "distinct (map fst todo)" and "j < length todo" and "get_path (snd (todo ! j)) = Inr p"
    and "list_all (\<lambda>(i, c). \<exists>p. get_path c = Inr p) todo"
  shows "todo ! j \<in> set (scan fs tabs todo n) \<longleftrightarrow>
     is_dir fs p \<and> (has_open_file tabs p
        \<or> (length todo - j) + length (filter (\<lambda>y. y \<in> set (scan fs tabs todo n)) (take j todo)) + n
            \<le> PROJECT_AUTOCLOSE_COUNT)"
  using assms
proof (induction todo arbitrary: n j)
  case Nil
  then show ?case by simp
next
  case (Cons x todo)
  obtain i c where x: "x = (i, c)" by (cases x)
  from Cons.prems(4) x obtain q where q: "get_path c = Inr q" by auto
  from Cons.prems(1) x have xnotin: "x \<notin> set todo" by (auto simp: image_iff)
  from Cons.prems(1) have dt: "distinct (map fst todo)" by simp
  from Cons.prems(4) have ok: "list_all (\<lambda>(i, c). \<exists>p. get_path c = Inr p) todo" by simp
  let ?rm = "evicts fs tabs q (Suc (length todo + n))"
  show ?case
  proof (cases j)
    case 0
    with Cons.prems(3) x q have pq: "p = q" by simp
    show ?thesis
    proof (cases ?rm)
      case True
      then have "scan fs tabs (x # todo) n = scan fs tabs todo n" using q x by simp
      moreover have "x \<notin> set (scan fs tabs todo n)" using xnotin scan_subset by blast
      ultimately show ?thesis using 0 True pq by (auto simp: evicts_def)
    next
      case False
      then have "scan fs tabs (x # todo) n = scan fs tabs todo (Suc n) @ [x]" using q x by simp
      then show ?thesis using 0 False pq by (auto simp: evicts_def)
    qed
  next
    case (Suc j')
    with Cons.prems have j': "j' < length todo" and pj: "get_path (snd (todo ! j')) = Inr p"
      by simp_all
    have neq: "todo ! j' \<noteq> x" using xnotin j' by (metis nth_mem)
    show ?thesis
    proof (cases ?rm)
      case True
      then have s: "scan fs tabs (x # todo) n = scan fs tabs todo n" using q x by simp
      have xn: "x \<notin> set (scan fs tabs todo n)" using xnotin scan_subset by blast
      have "filter (\<lambda>y. y \<in> set (scan fs tabs (x # todo) n)) (take j (x # todo))
          = filter (\<lambda>y. y \<in> set (scan fs tabs todo n)) (take j' todo)"
        using s xn Suc by simp
      then show ?thesis using Cons.IH [OF dt j' pj ok, of n] s Suc by simp
    next
      case False
      then have s: "scan fs tabs (x # todo) n = scan fs tabs todo (Suc n) @ [x]" using q x by simp
      have "filter (\<lambda>y. y \<in> set (scan fs tabs (x # todo) n)) (take j (x # todo))
          = x # filter (\<lambda>y. y \<in> set (scan fs tabs todo (Suc n))) (take j' todo)"
      proof -
        have "filter (\<lambda>y. y \<in> set (scan fs tabs todo (Suc n) @ [x])) (take j' todo)
            = filter (\<lambda>y. y \<in> set (scan fs tabs todo (Suc n))) (take j' todo)"
          using xnotin by (intro filter_cong) (auto dest: in_set_takeD)
        then show ?thesis using s Suc by simp
      qed
      then show ?thesis using Cons.IH [OF dt j' pj ok, of "Suc n"] s Suc neq by simp
    qed
  qed
qed

lemma paths_of_str:
  "paths_of cs = Inr pairs \<Longrightarrow>
   map (\<lambda>c. map_sum id str_path (get_path c)) cs = map Inr (map (\<lambda>(path, c). str_path path) pairs)"
  by (induction cs arbitrary: pairs) (auto split: sum.splits)

lemma hide_old_projects_persists:
  assumes "hide_old_projects fs tabs tree = Inr tree'"
  shows "map (\<lambda>(j, c). map_sum id str_path (get_path c)) (projects tree')
           = map Inr (directory_tree_projects tree')"
proof -
  from assms obtain current pairs where
    c: "paths_of (map snd current) = Inr pairs"
       "tree' = tree\<lparr>projects := current, directory_tree_projects := map (\<lambda>(path, c). str_path path) pairs\<rparr>"
    by (auto simp: hide_old_projects_def split: sum.splits)
  from paths_of_str [OF c(1)] show ?thesis
    using c(2) by (simp add: case_prod_unfold comp_def)
qed

lemma hide_old_projects_scan:
  assumes d: "distinct (map fst (projects tree))"
    and ok: "list_all (\<lambda>(i, c). \<exists>p. get_path c = Inr p) (projects tree)"
  shows "\<exists>pairs. paths_of (map snd (scan fs tabs (rev (projects tree)) 0)) = Inr pairs
     \<and> hide_old_projects fs tabs tree
        = Inr (tree\<lparr>projects := scan fs tabs (rev (projects tree)) 0,
                    directory_tree_projects := map (\<lambda>(path, c). str_path path) pairs\<rparr>)"
proof -
  let ?ps = "projects tree"
  let ?R = "scan fs tabs (rev ?ps) 0"
  have d': "distinct (map fst (rev (rev ?ps) @ []))" using d by simp
  have ok': "list_all (\<lambda>(i, c). \<exists>p. get_path c = Inr p) (rev ?ps)" using ok by simp
  have loop: "hide_loop fs tabs (rev ?ps) ?ps = Inr ?R"
    using hide_loop_scan [OF d' ok', of fs tabs] by simp
  have "list_all (\<lambda>c. \<exists>p. get_path c = Inr p) (map snd ?R)"
  proof -
    have "\<forall>y \<in> set ?R. \<exists>p. get_path (snd y) = Inr p"
      using scan_in [of _ fs tabs "rev ?ps" 0] ok by (fastforce simp: list_all_iff)
    then show ?thesis by (simp add: list_all_iff)
  qed
  then obtain pairs where "paths_of (map snd ?R) = Inr pairs"
    using paths_of_total by blast
  with loop show ?thesis by (simp add: hide_old_projects_def)
qed

text \<open>
  Claim C7. Let the projects have different item ids, and a path each. Then
  \<^verbatim>\<open>hide_old_projects\<close> returns; the projects that remain are a subsequence of the old ones
  (the order is kept); a project remains exactly when its path is a directory and either a
  file below it is open, or the count of the projects at the time it is looked at is at
  most the cap of 5: scanning from the end, that count is the number of projects up to and
  including it plus the number of those after it that remain. So a project whose directory
  is gone is always removed, a project that exists and has an open file is never removed,
  and the others are removed from the least recently used on while more than 5 are tracked.
  At the end either at most 5 remain or all that remain have an open file. The setting
  lists the paths of the remaining projects.
\<close>

theorem eviction_check:
  assumes d: "distinct (map fst (projects tree))"
    and ok: "list_all (\<lambda>(i, c). \<exists>p. get_path c = Inr p) (projects tree)"
  shows "\<exists>tree'. hide_old_projects fs tabs tree = Inr tree'
     \<and> subseq (projects tree') (projects tree)
     \<and> (\<forall>k p. k < length (projects tree) \<and> get_path (snd (projects tree ! k)) = Inr p \<longrightarrow>
          (projects tree ! k \<in> set (projects tree') \<longleftrightarrow>
             is_dir fs p \<and> (has_open_file tabs p
               \<or> Suc k + length (filter (\<lambda>y. y \<in> set (projects tree')) (drop (Suc k) (projects tree)))
                   \<le> PROJECT_AUTOCLOSE_COUNT)))
     \<and> (length (projects tree') \<le> PROJECT_AUTOCLOSE_COUNT
          \<or> list_all (\<lambda>(i, c). \<exists>p. get_path c = Inr p \<and> has_open_file tabs p) (projects tree'))
     \<and> map (\<lambda>(j, c). map_sum id str_path (get_path c)) (projects tree')
           = map Inr (directory_tree_projects tree')
     \<and> next_id tree' = next_id tree \<and> git_statuses tree' = git_statuses tree"
proof -
  let ?ps = "projects tree"
  let ?R = "scan fs tabs (rev ?ps) 0"
  from hide_old_projects_scan [OF d ok, of fs tabs] obtain pairs :: "(path \<times> item) list" where
    h: "hide_old_projects fs tabs tree
        = Inr (tree\<lparr>projects := ?R, directory_tree_projects := map (\<lambda>(path, c). str_path path) pairs\<rparr>)"
    by blast
  let ?tree' = "tree\<lparr>projects := ?R, directory_tree_projects := map (\<lambda>(path, c). str_path path) pairs\<rparr>"
  have sub: "subseq ?R ?ps" using scan_subseq [of fs tabs "rev ?ps" 0] by simp
  have cap: "length ?R \<le> PROJECT_AUTOCLOSE_COUNT
      \<or> list_all (\<lambda>(i, c). \<exists>p. get_path c = Inr p \<and> has_open_file tabs p) ?R"
    using scan_cap [of fs tabs "rev ?ps" 0] by simp
  have mem: "?ps ! k \<in> set ?R \<longleftrightarrow>
      is_dir fs p \<and> (has_open_file tabs p
        \<or> Suc k + length (filter (\<lambda>y. y \<in> set ?R) (drop (Suc k) ?ps)) \<le> PROJECT_AUTOCLOSE_COUNT)"
    if k: "k < length ?ps" and p: "get_path (snd (?ps ! k)) = Inr p" for k p
  proof -
    let ?n = "length ?ps"
    let ?j = "?n - Suc k"
    have j: "?j < length (rev ?ps)" using k by simp
    have nth: "rev ?ps ! ?j = ?ps ! k" using k by (simp add: rev_nth)
    have tk: "take ?j (rev ?ps) = rev (drop (Suc k) ?ps)" using k by (simp add: take_rev)
    have len: "length (rev ?ps) - ?j = Suc k" using k by simp
    have fl: "length (filter (\<lambda>y. y \<in> set ?R) (rev (drop (Suc k) ?ps)))
        = length (filter (\<lambda>y. y \<in> set ?R) (drop (Suc k) ?ps))"
      by (simp add: rev_filter [symmetric])
    have "rev ?ps ! ?j \<in> set ?R \<longleftrightarrow>
      is_dir fs p \<and> (has_open_file tabs p
        \<or> (length (rev ?ps) - ?j) + length (filter (\<lambda>y. y \<in> set ?R) (take ?j (rev ?ps))) + 0
            \<le> PROJECT_AUTOCLOSE_COUNT)"
    proof (rule scan_member)
      show "distinct (map fst (rev ?ps))" using d by (simp add: rev_map [symmetric])
      show "?j < length (rev ?ps)" by (rule j)
      show "get_path (snd (rev ?ps ! ?j)) = Inr p" using p nth by simp
      show "list_all (\<lambda>(i, c). \<exists>p. get_path c = Inr p) (rev ?ps)" using ok by simp
    qed
    then show ?thesis by (simp only: nth tk len fl add_0_right)
  qed
  have "subseq (projects ?tree') ?ps" using sub by simp
  moreover have "\<forall>k p. k < length ?ps \<and> get_path (snd (?ps ! k)) = Inr p \<longrightarrow>
          (?ps ! k \<in> set (projects ?tree') \<longleftrightarrow>
             is_dir fs p \<and> (has_open_file tabs p
               \<or> Suc k + length (filter (\<lambda>y. y \<in> set (projects ?tree')) (drop (Suc k) ?ps))
                   \<le> PROJECT_AUTOCLOSE_COUNT))"
    using mem by simp
  moreover have "length (projects ?tree') \<le> PROJECT_AUTOCLOSE_COUNT
          \<or> list_all (\<lambda>(i, c). \<exists>p. get_path c = Inr p \<and> has_open_file tabs p) (projects ?tree')"
    using cap by simp
  moreover have "map (\<lambda>(j, c). map_sum id str_path (get_path c)) (projects ?tree')
           = map Inr (directory_tree_projects ?tree')"
    using h by (rule hide_old_projects_persists)
  moreover have "next_id ?tree' = next_id tree" by simp
  moreover have "git_statuses ?tree' = git_statuses tree" by simp
  ultimately show ?thesis using h by (intro exI [of _ ?tree'] conjI)
qed

text \<open>
  The loop of lines 138 to 142 finds the first project whose path is \<^verbatim>\<open>root_path\<close>, and
  none when no project has that path; moving a project to the front leaves the others in
  their order.
\<close>

lemma find_project_tracked:
  assumes "list_all (\<lambda>(i, c). \<exists>p. get_path c = Inr p) ps"
    and "\<exists>x \<in> set ps. get_path (snd x) = Inr root_path"
  shows "\<exists>before i project after. ps = before @ (i, project) # after
      \<and> get_path project = Inr root_path
      \<and> (\<forall>x \<in> set before. get_path (snd x) \<noteq> Inr root_path)
      \<and> find_project root_path ps = Inr (Some (i, project))"
  using assms
proof (induction ps)
  case Nil
  then show ?case by simp
next
  case (Cons x ps)
  obtain i c where x: "x = (i, c)" by (cases x)
  from Cons.prems(1) x obtain p where p: "get_path c = Inr p" by auto
  show ?case
  proof (cases "p = root_path")
    case True
    then have "find_project root_path (x # ps) = Inr (Some (i, c))" using x p by simp
    moreover have "x # ps = [] @ (i, c) # ps" using x by simp
    moreover have "get_path c = Inr root_path" using p True by simp
    moreover have "\<forall>y \<in> set []. get_path (snd y) \<noteq> Inr root_path" by simp
    ultimately show ?thesis by blast
  next
    case False
    then have f: "find_project root_path (x # ps) = find_project root_path ps" using x p by simp
    from False p x Cons.prems(2) have "\<exists>y \<in> set ps. get_path (snd y) = Inr root_path" by auto
    moreover from Cons.prems(1) have "list_all (\<lambda>(i, c). \<exists>p. get_path c = Inr p) ps" by simp
    ultimately obtain before j project after where
      r: "ps = before @ (j, project) # after" "get_path project = Inr root_path"
         "\<forall>y \<in> set before. get_path (snd y) \<noteq> Inr root_path"
         "find_project root_path ps = Inr (Some (j, project))"
      using Cons.IH by blast
    have "x # ps = (x # before) @ (j, project) # after" using r(1) by simp
    moreover have "\<forall>y \<in> set (x # before). get_path (snd y) \<noteq> Inr root_path"
      using r(3) False p x by simp
    moreover have "find_project root_path (x # ps) = Inr (Some (j, project))" using f r(4) by simp
    ultimately show ?thesis using r(2) by blast
  qed
qed

lemma find_project_untracked:
  assumes "list_all (\<lambda>(i, c). \<exists>p. get_path c = Inr p) ps"
    and "\<forall>x \<in> set ps. get_path (snd x) \<noteq> Inr root_path"
  shows "find_project root_path ps = Inr None"
  using assms
proof (induction ps)
  case Nil
  then show ?case by simp
next
  case (Cons x ps)
  obtain i c where x: "x = (i, c)" by (cases x)
  from Cons.prems(1) x obtain p where p: "get_path c = Inr p" by auto
  with Cons.prems(2) x have "p \<noteq> root_path" by auto
  then have "find_project root_path (x # ps) = find_project root_path ps" using x p by simp
  with Cons show ?case by simp
qed

lemma move_first:
  assumes "distinct (map fst (before @ (i, project) # after))"
  shows "filter (\<lambda>(j, c). j \<noteq> i) (before @ (i, project) # after) = before @ after"
proof -
  from assms have "i \<notin> fst ` set before" "i \<notin> fst ` set after" by auto
  then have "filter (\<lambda>(j, c). j \<noteq> i) before = before" "filter (\<lambda>(j, c). j \<noteq> i) after = after"
    by (simp_all add: filter_other)
  then show ?thesis by simp
qed


lemma scan_keeps:
  assumes "distinct (map fst ps)" and "list_all (\<lambda>(i, c). \<exists>p. get_path c = Inr p) ps"
  shows "distinct (map fst (scan fs tabs (rev ps) 0))"
    and "list_all (\<lambda>(i, c). \<exists>p. get_path c = Inr p) (scan fs tabs (rev ps) 0)"
proof -
  have sub: "subseq (scan fs tabs (rev ps) 0) ps" using scan_subseq [of fs tabs "rev ps" 0] by simp
  then have "subseq (map fst (scan fs tabs (rev ps) 0)) (map fst ps)" by (rule subseq_map)
  then have "map fst (scan fs tabs (rev ps) 0) \<in> set (subseqs (map fst ps))" by simp
  then show "distinct (map fst (scan fs tabs (rev ps) 0))" using assms(1) by (rule subseqs_distinctD)
  have "set (scan fs tabs (rev ps) 0) \<subseteq> set ps" using scan_subset [of fs tabs "rev ps" 0] by simp
  then show "list_all (\<lambda>(i, c). \<exists>p. get_path c = Inr p) (scan fs tabs (rev ps) 0)"
    using assms(2) unfolding list_all_iff by blast
qed

lemma refresh_everything_returns:
  assumes d: "distinct (map fst (projects tree))"
    and ok: "list_all (\<lambda>(i, c). \<exists>p. get_path c = Inr p) (projects tree)"
  shows "\<exists>tree' paths. refresh_everything fs tabs tree = Inr (tree', paths)
      \<and> hide_old_projects fs tabs tree = Inr tree'
      \<and> map (\<lambda>(j, c). get_path c) (projects tree') = map (\<lambda>(j, p). Inr p) paths
      \<and> map fst paths = map fst (projects tree')"
proof -
  from hide_old_projects_scan [OF d ok, of fs tabs] obtain pairs :: "(path \<times> item) list" where
    p: "paths_of (map snd (scan fs tabs (rev (projects tree)) 0)) = Inr pairs"
    and h: "hide_old_projects fs tabs tree
        = Inr (tree\<lparr>projects := scan fs tabs (rev (projects tree)) 0,
                    directory_tree_projects := map (\<lambda>(path, c). str_path path) pairs\<rparr>)"
    by blast
  let ?R = "scan fs tabs (rev (projects tree)) 0"
  let ?tree' = "tree\<lparr>projects := ?R, directory_tree_projects := map (\<lambda>(path, c). str_path path) pairs\<rparr>"
  let ?paths = "zip (map fst ?R) (map fst pairs)"
  have r: "refresh_everything fs tabs tree = Inr (?tree', ?paths)"
    using h p by (simp add: refresh_everything_def)
  have len: "length pairs = length ?R" using paths_of_snd [OF p] by (metis length_map)
  have g: "list_all (\<lambda>(q, c). get_path c = Inr q) pairs" using p by (rule paths_of_get_path)
  have sn: "map snd pairs = map snd ?R" using p by (rule paths_of_snd)
  have "map (\<lambda>(j, c). get_path c) ?R = map (\<lambda>(j, p). Inr p) ?paths"
  proof (rule nth_equalityI)
    show "length (map (\<lambda>(j, c). get_path c) ?R) = length (map (\<lambda>(j, p). Inr p) ?paths)"
      using len by simp
  next
    fix k assume "k < length (map (\<lambda>(j, c). get_path c) ?R)"
    then have k: "k < length ?R" by simp
    then have kp: "k < length pairs" using len by simp
    have "snd (pairs ! k) = snd (?R ! k)" using sn k kp by (metis nth_map)
    moreover have "get_path (snd (pairs ! k)) = Inr (fst (pairs ! k))"
      using g kp by (auto simp: list_all_length case_prod_unfold)
    ultimately show "map (\<lambda>(j, c). get_path c) ?R ! k = map (\<lambda>(j, p). Inr p) ?paths ! k"
      using k kp by (simp add: case_prod_unfold)
  qed
  moreover have "map fst ?paths = map fst ?R" using len by simp
  ultimately show ?thesis using r h by simp
qed


text \<open>
  Claim C8 (as amended). Let the projects have different item ids, a path each, and let
  the next item id be unused. When the path is already tracked, that is, some project has
  it, \<^verbatim>\<open>add_project\<close> moves the first project with that path, unchanged, to index 0 and
  returns: the projects before and after it keep their order, nothing is evicted, the
  setting is not written and no refresh starts. When no project has the path, a new project
  with a placeholder is inserted at index 0, then \<^verbatim>\<open>hide_old_projects\<close> runs on the
  projects with the new one and returns (the eviction check, which writes the setting: the
  setting lists the paths of the projects that remain, in their order); and then, if a
  refresh is asked for, \<^verbatim>\<open>refresh_everything\<close> checks the projects and writes the setting
  once more and hands the item ids and paths of the projects to the thread. Whenever
  \<^verbatim>\<open>hide_old_projects\<close> returns, the setting lists the paths of the projects in their
  order.
\<close>

theorem add_project_cases:
  assumes d: "distinct (map fst (projects tree))"
    and ok: "list_all (\<lambda>(i, c). \<exists>p. get_path c = Inr p) (projects tree)"
    and fresh: "next_id tree \<notin> fst ` set (projects tree)"
  shows "((\<exists>x \<in> set (projects tree). get_path (snd x) = Inr root_path) \<longrightarrow>
      (\<exists>before i project after.
          projects tree = before @ (i, project) # after
        \<and> get_path project = Inr root_path
        \<and> (\<forall>x \<in> set before. get_path (snd x) \<noteq> Inr root_path)
        \<and> add_project fs tabs root_path refresh tree
            = Inr (tree\<lparr>projects := (i, project) # before @ after\<rparr>, None)))
   \<and> ((\<forall>x \<in> set (projects tree). get_path (snd x) \<noteq> Inr root_path) \<longrightarrow>
      (\<exists>tree'.
          hide_old_projects fs tabs
            (tree\<lparr>projects := (next_id tree, Item (Some root_path) {Tag_dir, Tag_project} [dummy_item])
                               # projects tree,
                   next_id := Suc (next_id tree)\<rparr>) = Inr tree'
        \<and> map (\<lambda>(j, c). map_sum id str_path (get_path c)) (projects tree')
            = map Inr (directory_tree_projects tree')
        \<and> (if refresh
            then \<exists>tree'' paths.
                   add_project fs tabs root_path refresh tree = Inr (tree'', Some paths)
                 \<and> hide_old_projects fs tabs tree' = Inr tree''
                 \<and> map (\<lambda>(j, c). map_sum id str_path (get_path c)) (projects tree'')
                     = map Inr (directory_tree_projects tree'')
                 \<and> map (\<lambda>(j, c). get_path c) (projects tree'') = map (\<lambda>(j, p). Inr p) paths
                 \<and> map fst paths = map fst (projects tree'')
            else add_project fs tabs root_path refresh tree = Inr (tree', None))))
   \<and> (\<forall>tree'. hide_old_projects fs tabs tree = Inr tree' \<longrightarrow>
         map (\<lambda>(j, c). map_sum id str_path (get_path c)) (projects tree')
           = map Inr (directory_tree_projects tree'))"
proof (intro conjI impI allI)
  assume "\<exists>x \<in> set (projects tree). get_path (snd x) = Inr root_path"
  with ok obtain before i project after where
    r: "projects tree = before @ (i, project) # after" "get_path project = Inr root_path"
       "\<forall>x \<in> set before. get_path (snd x) \<noteq> Inr root_path"
       "find_project root_path (projects tree) = Inr (Some (i, project))"
    using find_project_tracked [of "projects tree" root_path] by blast
  have "filter (\<lambda>(j, c). j \<noteq> i) (projects tree) = before @ after"
    using d unfolding r(1) by (rule move_first)
  then have "add_project fs tabs root_path refresh tree
            = Inr (tree\<lparr>projects := (i, project) # before @ after\<rparr>, None)"
    using r(4) by (simp add: add_project_def)
  with r(1,2,3) show "\<exists>before i project after.
          projects tree = before @ (i, project) # after
        \<and> get_path project = Inr root_path
        \<and> (\<forall>x \<in> set before. get_path (snd x) \<noteq> Inr root_path)
        \<and> add_project fs tabs root_path refresh tree
            = Inr (tree\<lparr>projects := (i, project) # before @ after\<rparr>, None)"
    by blast
next
  assume "\<forall>x \<in> set (projects tree). get_path (snd x) \<noteq> Inr root_path"
  with ok have f: "find_project root_path (projects tree) = Inr None"
    by (rule find_project_untracked)
  let ?new = "Item (Some root_path) {Tag_dir, Tag_project} [dummy_item]"
  let ?ins = "tree\<lparr>projects := (next_id tree, ?new) # projects tree, next_id := Suc (next_id tree)\<rparr>"
  have gp: "get_path ?new = Inr root_path" by (simp add: get_path_def)
  have d1: "distinct (map fst (projects ?ins))" using d fresh by simp
  have ok1: "list_all (\<lambda>(i, c). \<exists>p. get_path c = Inr p) (projects ?ins)" using ok gp by simp
  from hide_old_projects_scan [OF d1 ok1, of fs tabs] obtain pairs :: "(path \<times> item) list" where
    h: "hide_old_projects fs tabs ?ins
        = Inr (?ins\<lparr>projects := scan fs tabs (rev (projects ?ins)) 0,
                    directory_tree_projects := map (\<lambda>(path, c). str_path path) pairs\<rparr>)"
    by blast
  let ?tree' = "?ins\<lparr>projects := scan fs tabs (rev (projects ?ins)) 0,
                    directory_tree_projects := map (\<lambda>(path, c). str_path path) pairs\<rparr>"
  have pers: "map (\<lambda>(j, c). map_sum id str_path (get_path c)) (projects ?tree')
            = map Inr (directory_tree_projects ?tree')"
    using h by (rule hide_old_projects_persists)
  have a: "add_project fs tabs root_path refresh tree
      = (if refresh then
           (case refresh_everything fs tabs ?tree' of
              Inl e \<Rightarrow> Inl e
            | Inr (tree'', paths) \<Rightarrow> Inr (tree'', Some paths))
         else Inr (?tree', None))"
    using f h by (simp add: add_project_def insert_dummy_def)
  have last: "if refresh
            then \<exists>tree'' paths.
                   add_project fs tabs root_path refresh tree = Inr (tree'', Some paths)
                 \<and> hide_old_projects fs tabs ?tree' = Inr tree''
                 \<and> map (\<lambda>(j, c). map_sum id str_path (get_path c)) (projects tree'')
                     = map Inr (directory_tree_projects tree'')
                 \<and> map (\<lambda>(j, c). get_path c) (projects tree'') = map (\<lambda>(j, p). Inr p) paths
                 \<and> map fst paths = map fst (projects tree'')
            else add_project fs tabs root_path refresh tree = Inr (?tree', None)"
  proof (cases refresh)
    case False
    then show ?thesis using a by simp
  next
    case True
    have d2: "distinct (map fst (projects ?tree'))"
      using scan_keeps(1) [OF d1 ok1, of fs tabs] by simp
    have ok2: "list_all (\<lambda>(i, c). \<exists>p. get_path c = Inr p) (projects ?tree')"
      using scan_keeps(2) [OF d1 ok1, of fs tabs] by simp
    from refresh_everything_returns [OF d2 ok2, of fs tabs] obtain tree'' paths where
      r: "refresh_everything fs tabs ?tree' = Inr (tree'', paths)"
         "hide_old_projects fs tabs ?tree' = Inr tree''"
         "map (\<lambda>(j, c). get_path c) (projects tree'') = map (\<lambda>(j, p). Inr p) paths"
         "map fst paths = map fst (projects tree'')"
      by blast
    have "add_project fs tabs root_path refresh tree = Inr (tree'', Some paths)"
      using a True r(1) by simp
    moreover have "map (\<lambda>(j, c). map_sum id str_path (get_path c)) (projects tree'')
                     = map Inr (directory_tree_projects tree'')"
      using r(2) by (rule hide_old_projects_persists)
    ultimately show ?thesis using True r(2,3,4) by simp
  qed
  show "\<exists>tree'.
          hide_old_projects fs tabs ?ins = Inr tree'
        \<and> map (\<lambda>(j, c). map_sum id str_path (get_path c)) (projects tree')
            = map Inr (directory_tree_projects tree')
        \<and> (if refresh
            then \<exists>tree'' paths.
                   add_project fs tabs root_path refresh tree = Inr (tree'', Some paths)
                 \<and> hide_old_projects fs tabs tree' = Inr tree''
                 \<and> map (\<lambda>(j, c). map_sum id str_path (get_path c)) (projects tree'')
                     = map Inr (directory_tree_projects tree'')
                 \<and> map (\<lambda>(j, c). get_path c) (projects tree'') = map (\<lambda>(j, p). Inr p) paths
                 \<and> map fst paths = map fst (projects tree'')
            else add_project fs tabs root_path refresh tree = Inr (tree', None))"
    using h pers last by (intro exI [of _ ?tree'] conjI)
next
  fix tree'
  assume "hide_old_projects fs tabs tree = Inr tree'"
  then show "map (\<lambda>(j, c). map_sum id str_path (get_path c)) (projects tree')
           = map Inr (directory_tree_projects tree')"
    by (rule hide_old_projects_persists)
qed

subsection \<open>The order of the children\<close>

lemma with_keys_props:
  "with_keys xs = Inr keyed \<Longrightarrow> map snd keyed = xs \<and> list_all (\<lambda>(k, x). sorting_key x = Inr k) keyed"
  by (induction xs arbitrary: keyed) (auto split: sum.splits)

lemma sort_children_props:
  assumes "sort_children before = Inr ordered"
  shows "\<exists>keys. map sorting_key ordered = map Inr keys \<and> sorted keys"
    and "set ordered = set before" and "length ordered = length before"
    and "filter (\<lambda>x. sorting_key x = Inr k) ordered = filter (\<lambda>x. sorting_key x = Inr k) before"
proof -
  from assms obtain keyed where wk: "with_keys before = Inr keyed"
    and ord: "ordered = map snd (sort_key fst keyed)"
    by (auto simp: sort_children_def split: sum.splits)
  from with_keys_props [OF wk] have snd: "map snd keyed = before"
    and keys: "list_all (\<lambda>(k, x). sorting_key x = Inr k) keyed" by simp_all
  let ?s = "sort_key fst keyed"
  have all: "\<forall>y \<in> set ?s. sorting_key (snd y) = Inr (fst y)"
    using keys by (auto simp: list_all_iff)
  have "map sorting_key ordered = map Inr (map fst ?s)"
    unfolding ord using all by (simp add: comp_def)
  moreover have "sorted (map fst ?s)" by (rule sorted_sort_key)
  ultimately show "\<exists>keys. map sorting_key ordered = map Inr keys \<and> sorted keys" by blast
  have "set (map snd ?s) = set (map snd keyed)" by simp
  then show "set ordered = set before" using ord snd by simp
  show "length ordered = length before" using ord snd by (metis length_map length_sort)
  have "filter (\<lambda>x. sorting_key x = Inr k) (map snd ?s) = map snd (filter (\<lambda>y. fst y = k) ?s)"
  proof -
    have "filter (\<lambda>x. sorting_key (snd x) = Inr k) ?s = filter (\<lambda>y. fst y = k) ?s"
      using all by (intro filter_cong) auto
    then show ?thesis by (simp add: filter_map comp_def)
  qed
  also have "\<dots> = map snd (filter (\<lambda>y. fst y = k) keyed)" by (simp only: sort_key_stable)
  also have "\<dots> = filter (\<lambda>x. sorting_key x = Inr k) (map snd keyed)"
  proof -
    have "\<forall>y \<in> set keyed. sorting_key (snd y) = Inr (fst y)"
      using keys by (auto simp: list_all_iff)
    then have "filter (\<lambda>x. sorting_key (snd x) = Inr k) keyed = filter (\<lambda>y. fst y = k) keyed"
      by (intro filter_cong) auto
    then show ?thesis by (simp add: filter_map comp_def)
  qed
  finally show "filter (\<lambda>x. sorting_key x = Inr k) ordered = filter (\<lambda>x. sorting_key x = Inr k) before"
    using ord snd by simp
qed

lemma get_path_new_item [simp]: "get_path (new_item fs q) = Inr q"
  by (simp add: new_item_def get_path_def insert_dummy_def)

lemma get_path_refreshed:
  assumes "refreshed roots gs before after" and "get_path (snd before) = Inr (fst before)"
  shows "get_path (snd after) = Inr (fst after)"
proof -
  from assms(1) have v: "item_values (snd after) = item_values (snd before)"
    and f: "fst after = fst before"
    and t: "new_tags_of roots gs (fst before) (item_tags (snd before)) = Inr (item_tags (snd after))"
    by (simp_all add: refreshed_def)
  have "Tag_dummy \<in> {t \<in> item_tags (snd after). \<not> is_git t}
      \<longleftrightarrow> Tag_dummy \<in> {t \<in> item_tags (snd before). \<not> is_git t}"
    by (simp only: new_tags_of_keeps [OF t])
  then have "Tag_dummy \<in> item_tags (snd after) \<longleftrightarrow> Tag_dummy \<in> item_tags (snd before)" by simp
  with assms(2) v f show ?thesis by (auto simp: get_path_def split: if_splits)
qed

lemma refreshed_paths:
  assumes "list_all2 (refreshed roots gs) l l'" and "list_all (\<lambda>(q, c). get_path c = Inr q) l"
  shows "list_all (\<lambda>(q, c). get_path c = Inr q) l'"
  using assms
proof (induction l l' rule: list_all2_induct)
  case Nil
  then show ?case by simp
next
  case (Cons x xs y ys)
  from Cons.prems have "get_path (snd x) = Inr (fst x)" by (simp add: case_prod_unfold)
  with Cons.hyps(1) have "get_path (snd y) = Inr (fst y)" by (rule get_path_refreshed)
  moreover have "list_all (\<lambda>(q, c). get_path c = Inr q) ys" using Cons by simp
  ultimately show ?case by (simp add: case_prod_unfold)
qed

lemma open_and_refresh_directory_Some:
  assumes r: "open_and_refresh_directory fs gs tr (Some d) dir = Inr (dir', log)"
    and l: "iterdir fs d = Some new_paths" and ne: "new_paths \<noteq> []"
  shows "\<exists>pairs path2id log0 before log1 ordered.
      prepare fs (Some d) dir = Inr (Listed pairs path2id log0)
      \<and> distinct (map fst pairs)
      \<and> path2id = filter (\<lambda>(path, c). path \<in> set new_paths) pairs
             @ map (\<lambda>path. (path, new_item fs path))
                 (remdups (filter (\<lambda>path. path \<notin> fst ` set pairs) new_paths))
      \<and> refresh_children fs gs tr path2id = Inr (before, log1)
      \<and> sort_children before = Inr ordered
      \<and> dir' = Item (item_values dir) (item_tags dir) (map snd ordered)
      \<and> log = log0 @ log1"
proof (cases "prepare fs (Some d) dir")
  case (Inl e)
  with r show ?thesis by (simp add: open_and_refresh_directory.simps)
next
  case (Inr prep)
  show ?thesis
  proof (cases prep)
    case (Returned x l0)
    with Inr l ne show ?thesis
      by (auto simp: prepare_def Let_def split: sum.splits if_splits)
  next
    case (Listed pairs path2id log0)
    with Inr have p: "prepare fs (Some d) dir = Inr (Listed pairs path2id log0)" by simp
    from r p obtain before log1 where
      g: "refresh_children fs gs tr path2id = Inr (before, log1)"
      and f: "finish (Some d) dir pairs before = Inr dir'" and lg: "log = log0 @ log1"
      by (auto simp: open_and_refresh_directory.simps split: sum.splits)
    from f have dist: "distinct (map fst pairs)"
      by (auto simp: finish_def split: if_splits)
    with f obtain ordered where s: "sort_children before = Inr ordered"
      and d': "dir' = Item (item_values dir) (item_tags dir) (map snd ordered)"
      by (auto simp: finish_def split: sum.splits)
    from prepare_Listed(3) [OF p, of d] l have
      "path2id = filter (\<lambda>(path, c). path \<in> set new_paths) (dict_of pairs)
             @ map (\<lambda>path. (path, new_item fs path))
                 (remdups (filter (\<lambda>path. path \<notin> fst ` set (dict_of pairs)) new_paths))"
      by auto
    then have "path2id = filter (\<lambda>(path, c). path \<in> set new_paths) pairs
             @ map (\<lambda>path. (path, new_item fs path))
                 (remdups (filter (\<lambda>path. path \<notin> fst ` set pairs) new_paths))"
      using dist by (simp add: dict_of_distinct)
    with p dist g s d' lg show ?thesis by blast
  qed
qed


lemma sorting_key_rank:
  assumes "sorting_key (q, c) = Inr k"
  shows "\<exists>g. (case g of None \<Rightarrow> \<forall>s. Tag_git s \<notin> item_tags c | Some s \<Rightarrow> Tag_git s \<in> item_tags c)
           \<and> k = (status_rank g, if Tag_dir \<in> item_tags c then 1 else 2, str_path q)"
proof -
  let ?g = "filter (\<lambda>s. Tag_git s \<in> item_tags c)
              [git_added, git_modified, git_mergeconflict, git_untracked, git_ignored]"
  from assms have k: "k = (status_rank (case ?g of [] \<Rightarrow> None | s # _ \<Rightarrow> Some s),
      if Tag_dir \<in> item_tags c then 1 else 2, str_path q)"
    by (simp add: sorting_key_def Let_def split: if_splits)
  have all: "set [git_added, git_modified, git_mergeconflict, git_untracked, git_ignored] = UNIV"
  proof -
    have "s \<in> set [git_added, git_modified, git_mergeconflict, git_untracked, git_ignored]" for s
      by (cases s) simp_all
    then show ?thesis by blast
  qed
  show ?thesis
  proof (cases ?g)
    case Nil
    then have "\<forall>s \<in> set [git_added, git_modified, git_mergeconflict, git_untracked, git_ignored].
        Tag_git s \<notin> item_tags c"
      by (simp only: filter_empty_conv) 
    then have "\<forall>s. Tag_git s \<notin> item_tags c" unfolding all by simp
    then show ?thesis using k Nil by (intro exI [of _ None]) simp
  next
    case (Cons s ss)
    then have "s \<in> set ?g" by (simp only: list.set_intros)
    then have "Tag_git s \<in> item_tags c" by (simp only: set_filter mem_Collect_eq)
    then show ?thesis using k Cons by (intro exI [of _ "Some s"]) simp
  qed
qed

lemma sorting_key_form:
  assumes "sorting_key (q, c) = Inr k"
  shows "\<exists>g. (case g of None \<Rightarrow> \<forall>s. Tag_git s \<notin> item_tags c | Some s \<Rightarrow> Tag_git s \<in> item_tags c)
           \<and> k = ((case g of
                        Some git_added \<Rightarrow> 0 | Some git_modified \<Rightarrow> 1
                      | Some git_mergeconflict \<Rightarrow> 2 | None \<Rightarrow> 3
                      | Some git_untracked \<Rightarrow> 4 | Some git_ignored \<Rightarrow> 5), if Tag_dir \<in> item_tags c then 1 else 2, str_path q)"
proof -
  from sorting_key_rank [OF assms] obtain g where
    g: "(case g of None \<Rightarrow> \<forall>s. Tag_git s \<notin> item_tags c | Some s \<Rightarrow> Tag_git s \<in> item_tags c)"
    and k: "k = (status_rank g, if Tag_dir \<in> item_tags c then 1 else 2, str_path q)"
    by blast
  have "status_rank g = (case g of
                        Some git_added \<Rightarrow> 0 | Some git_modified \<Rightarrow> 1
                      | Some git_mergeconflict \<Rightarrow> 2 | None \<Rightarrow> 3
                      | Some git_untracked \<Rightarrow> 4 | Some git_ignored \<Rightarrow> 5)"
    by (cases g rule: status_rank.cases) simp_all
  with g k show ?thesis by (intro exI [of _ g]) (simp only: simp_thms)
qed

text \<open>
  Claim C6. When the reconciliation of a directory with a non-empty listing
  returns, the children of the directory are the items of \<^verbatim>\<open>path2id\<close> after the loop, each
  with its path, in the order of \<^verbatim>\<open>sorted\<close>: their keys are ascending; the key of a child is
  the rank of its git tag (Added 0, Modified 1, MergeConflict 2, none 3, Untracked 4,
  Ignored 5), then 1 for a directory and 2 otherwise, then the string of its path, compared
  in this order; the children are the same items as before the sort, and children with
  equal keys keep the order they had.
\<close>

theorem children_sorted:
  assumes "open_and_refresh_directory fs statuses top_roots (Some dir_path) dir = Inr (dir', log)"
    and "iterdir fs dir_path = Some new_paths" and "new_paths \<noteq> []"
  shows "\<exists>pairs path2id log0 before log1 ordered keys.
      prepare fs (Some dir_path) dir = Inr (Listed pairs path2id log0)
      \<and> refresh_children fs statuses top_roots path2id = Inr (before, log1)
      \<and> item_children dir' = map snd ordered
      \<and> list_all (\<lambda>(q, c). get_path c = Inr q) ordered
      \<and> map sorting_key ordered = map Inr keys \<and> sorted keys
      \<and> list_all (\<lambda>(q, c). \<exists>g.
            (case g of None \<Rightarrow> \<forall>s. Tag_git s \<notin> item_tags c | Some s \<Rightarrow> Tag_git s \<in> item_tags c)
            \<and> sorting_key (q, c)
                = Inr ((case g of
                        Some git_added \<Rightarrow> 0 | Some git_modified \<Rightarrow> 1
                      | Some git_mergeconflict \<Rightarrow> 2 | None \<Rightarrow> 3
                      | Some git_untracked \<Rightarrow> 4 | Some git_ignored \<Rightarrow> 5), if Tag_dir \<in> item_tags c then 1 else 2, str_path q)) ordered
      \<and> set ordered = set before \<and> length ordered = length before
      \<and> (\<forall>k. filter (\<lambda>x. sorting_key x = Inr k) ordered
              = filter (\<lambda>x. sorting_key x = Inr k) before)"
proof -
  from open_and_refresh_directory_Some [OF assms] obtain pairs path2id log0 before log1 ordered where
    p: "prepare fs (Some dir_path) dir = Inr (Listed pairs path2id log0)"
    and p2: "path2id = filter (\<lambda>(path, c). path \<in> set new_paths) pairs
             @ map (\<lambda>path. (path, new_item fs path))
                 (remdups (filter (\<lambda>path. path \<notin> fst ` set pairs) new_paths))"
    and g: "refresh_children fs statuses top_roots path2id = Inr (before, log1)"
    and s: "sort_children before = Inr ordered"
    and d': "dir' = Item (item_values dir) (item_tags dir) (map snd ordered)"
    by blast
  from sort_children_props(1) [OF s] obtain keys where
    keys: "map sorting_key ordered = map Inr keys" "sorted keys" by blast
  have set_eq: "set ordered = set before" by (rule sort_children_props(2) [OF s])
  have len_eq: "length ordered = length before" by (rule sort_children_props(3) [OF s])
  have stable: "\<forall>k. filter (\<lambda>x. sorting_key x = Inr k) ordered
              = filter (\<lambda>x. sorting_key x = Inr k) before"
    using sort_children_props(4) [OF s] by simp
  have "list_all (\<lambda>(q, c). get_path c = Inr q) pairs"
    using prepare_Listed(1) [OF p] by (rule paths_of_get_path)
  then have "list_all (\<lambda>(q, c). get_path c = Inr q) path2id"
    unfolding p2 by (auto simp: list_all_iff)
  with refresh_children_refreshed [OF g] have "list_all (\<lambda>(q, c). get_path c = Inr q) before"
    by (rule refreshed_paths)
  with set_eq have paths: "list_all (\<lambda>(q, c). get_path c = Inr q) ordered"
    by (simp add: list_all_iff)
  have form: "list_all (\<lambda>(q, c). \<exists>g.
            (case g of None \<Rightarrow> \<forall>s. Tag_git s \<notin> item_tags c | Some s \<Rightarrow> Tag_git s \<in> item_tags c)
            \<and> sorting_key (q, c)
                = Inr ((case g of
                        Some git_added \<Rightarrow> 0 | Some git_modified \<Rightarrow> 1
                      | Some git_mergeconflict \<Rightarrow> 2 | None \<Rightarrow> 3
                      | Some git_untracked \<Rightarrow> 4 | Some git_ignored \<Rightarrow> 5), if Tag_dir \<in> item_tags c then 1 else 2, str_path q)) ordered"
  proof -
    let ?P = "\<lambda>(q, c). \<exists>g.
            (case g of None \<Rightarrow> \<forall>s. Tag_git s \<notin> item_tags c | Some s \<Rightarrow> Tag_git s \<in> item_tags c)
            \<and> sorting_key (q, c)
                = Inr ((case g of
                        Some git_added \<Rightarrow> 0 | Some git_modified \<Rightarrow> 1
                      | Some git_mergeconflict \<Rightarrow> 2 | None \<Rightarrow> 3
                      | Some git_untracked \<Rightarrow> 4 | Some git_ignored \<Rightarrow> 5), if Tag_dir \<in> item_tags c then 1 else 2, str_path q)"
    have one: "?P (q, c)" if "(q, c) \<in> set ordered" for q c
    proof -
      from that obtain i where i: "i < length ordered" "ordered ! i = (q, c)"
        by (auto simp: in_set_conv_nth)
      then have "map sorting_key ordered ! i = map Inr keys ! i" using keys(1) by simp
      moreover have "length keys = length ordered" using keys(1) by (metis length_map)
      ultimately have k: "sorting_key (q, c) = Inr (keys ! i)" using i by simp
      from sorting_key_form [OF k] obtain g where
        "(case g of None \<Rightarrow> \<forall>s. Tag_git s \<notin> item_tags c | Some s \<Rightarrow> Tag_git s \<in> item_tags c)"
        and "keys ! i = ((case g of
                        Some git_added \<Rightarrow> 0 | Some git_modified \<Rightarrow> 1
                      | Some git_mergeconflict \<Rightarrow> 2 | None \<Rightarrow> 3
                      | Some git_untracked \<Rightarrow> 4 | Some git_ignored \<Rightarrow> 5), if Tag_dir \<in> item_tags c then 1 else 2, str_path q)"
        by blast
      with k show ?thesis unfolding prod.case by (intro exI [of _ g]) (simp only:)
    qed
    have "\<forall>x \<in> set ordered. ?P x"
    proof
      fix x assume x: "x \<in> set ordered"
      obtain q c where qc: "x = (q, c)" by (cases x)
      with x one show "?P x" by (simp only:)
    qed
    then show ?thesis by (simp only: list_all_iff)
  qed
  have "item_children dir' = map snd ordered" using d' by simp
  with p g paths keys form set_eq len_eq stable show ?thesis by blast
qed

text \<open>
  Nine children, listed by name. An Added directory, an Added file, a Modified file and a
  file with a conflict come first, against the order of kinds and names; then two
  directories without status, by name; then an Untracked directory, an Ignored directory
  and an Ignored file. Among them are the Added directory, the directory without status and
  the Ignored file of the example, in this order.
\<close>

theorem children_sorted_witness:
  "(case open_and_refresh_directory
      \<lparr>iterdir = (\<lambda>p. if p = [''p'']
          then Some [[''p'', ''a''], [''p'', ''b''], [''p'', ''c''], [''p'', ''d''], [''p'', ''e''],
                     [''p'', ''f''], [''p'', ''g''], [''p'', ''h.txt''], [''p'', ''n'']]
          else None),
        is_dir = (\<lambda>p. p \<in> {[''p''], [''p'', ''a''], [''p'', ''b''], [''p'', ''c''], [''p'', ''g''],
                           [''p'', ''n'']})\<rparr>
      (Map.empty([''p''] \<mapsto> [([''p'', ''a''], git_ignored), ([''p'', ''b''], git_untracked),
          ([''p'', ''d''], git_mergeconflict), ([''p'', ''e''], git_modified),
          ([''p'', ''f''], git_added), ([''p'', ''g''], git_added), ([''p'', ''h.txt''], git_ignored)]))
      {[''p'']} (Some [''p'']) (Item (Some [''p'']) {Tag_dir, Tag_project} [dummy_item]) of
      Inl e \<Rightarrow> None
    | Inr (dir', log) \<Rightarrow> Some (map (\<lambda>c. (item_values c, item_tags c)) (item_children dir')))
   = Some [(Some [''p'', ''g''], {Tag_dir, Tag_git git_added}),
           (Some [''p'', ''f''], {Tag_file, Tag_git git_added}),
           (Some [''p'', ''e''], {Tag_file, Tag_git git_modified}),
           (Some [''p'', ''d''], {Tag_file, Tag_git git_mergeconflict}),
           (Some [''p'', ''c''], {Tag_dir}),
           (Some [''p'', ''n''], {Tag_dir}),
           (Some [''p'', ''b''], {Tag_dir, Tag_git git_untracked}),
           (Some [''p'', ''a''], {Tag_dir, Tag_git git_ignored}),
           (Some [''p'', ''h.txt''], {Tag_file, Tag_git git_ignored})]"
proof -
  let ?l = "[[''p'', ''a''], [''p'', ''b''], [''p'', ''c''], [''p'', ''d''], [''p'', ''e''],
             [''p'', ''f''], [''p'', ''g''], [''p'', ''h.txt''], [''p'', ''n'']]"
  let ?fs = "\<lparr>iterdir = (\<lambda>p. if p = [''p''] then Some ?l else None),
        is_dir = (\<lambda>p. p \<in> {[''p''], [''p'', ''a''], [''p'', ''b''], [''p'', ''c''], [''p'', ''g''],
                           [''p'', ''n'']})\<rparr> :: filesystem"
  let ?gs = "Map.empty([''p''] \<mapsto> [([''p'', ''a''], git_ignored), ([''p'', ''b''], git_untracked),
          ([''p'', ''d''], git_mergeconflict), ([''p'', ''e''], git_modified),
          ([''p'', ''f''], git_added), ([''p'', ''g''], git_added), ([''p'', ''h.txt''], git_ignored)])"
  let ?dir = "Item (Some [''p'']) {Tag_dir, Tag_project} [dummy_item]"
  let ?call = "open_and_refresh_directory ?fs ?gs {[''p'']} (Some [''p'']) ?dir"
  have ev: "(case ?call of
      Inl e \<Rightarrow> None
    | Inr (dir', log) \<Rightarrow> Some (map (\<lambda>c. (item_values c, item_tags c)) (item_children dir')))
   = Some [(Some [''p'', ''g''], {Tag_dir, Tag_git git_added}),
           (Some [''p'', ''f''], {Tag_file, Tag_git git_added}),
           (Some [''p'', ''e''], {Tag_file, Tag_git git_modified}),
           (Some [''p'', ''d''], {Tag_file, Tag_git git_mergeconflict}),
           (Some [''p'', ''c''], {Tag_dir}),
           (Some [''p'', ''n''], {Tag_dir}),
           (Some [''p'', ''b''], {Tag_dir, Tag_git git_untracked}),
           (Some [''p'', ''a''], {Tag_dir, Tag_git git_ignored}),
           (Some [''p'', ''h.txt''], {Tag_file, Tag_git git_ignored})]"
    by code_simp
  then obtain dir' log where r: "?call = Inr (dir', log)"
    by (cases ?call) auto
  have l: "iterdir ?fs [''p''] = Some ?l" by simp
  from children_sorted [OF r l] obtain ordered keys where
    "item_children dir' = map snd ordered" "map sorting_key ordered = map Inr keys" "sorted keys"
    by blast
  with ev show ?thesis by simp
qed

subsection \<open>Reconciling twice\<close>

lemma new_tags_of_idem:
  assumes "new_tags_of roots gs cp old = Inr nt"
  shows "new_tags_of roots gs cp nt = Inr nt"
proof -
  from assms obtain chain m found where
    c: "relevant_parents roots cp = Inr chain" and m: "gs (last chain) = Some m"
    and f: "status_tags m cp chain = Inr found"
    and nt: "nt = {t \<in> old. \<not> is_git t} \<union> Tag_git ` found"
    by (auto simp: new_tags_of_def split: sum.splits option.splits)
  have "{t \<in> nt. \<not> is_git t} = {t \<in> old. \<not> is_git t}"
    using assms by (rule new_tags_of_keeps)
  then have "{t \<in> nt. \<not> is_git t} \<union> Tag_git ` found = nt" using nt by simp
  then show ?thesis using c m f by (simp add: new_tags_of_def)
qed

lemma refresh_children_Cons:
  "refresh_children fs gs roots (x # rest) =
     (case refresh_children fs gs roots [x] of
        Inl e \<Rightarrow> Inl e
      | Inr (xs, log) \<Rightarrow>
          (case refresh_children fs gs roots rest of
             Inl e \<Rightarrow> Inl e
           | Inr (rest', log') \<Rightarrow> Inr (xs @ rest', log @ log')))"
  by (cases x) (simp add: open_and_refresh_directory.simps split: sum.splits prod.splits)

lemma settled_all:
  "list_all (settled fs gs roots) l \<Longrightarrow>
   \<exists>log. refresh_children fs gs roots l = Inr (l, log) \<and> list_all placeholder_call log"
proof (induction l)
  case Nil
  then show ?case by (simp add: open_and_refresh_directory.simps)
next
  case (Cons x l)
  from Cons.prems obtain log where
    x: "refresh_children fs gs roots [x] = Inr ([x], log)" "list_all placeholder_call log"
    by (auto simp: settled_def)
  from Cons obtain log' where
    l: "refresh_children fs gs roots l = Inr (l, log')" "list_all placeholder_call log'"
    by auto
  have "refresh_children fs gs roots (x # l) = Inr (x # l, log @ log')"
    by (simp add: refresh_children_Cons [of fs gs roots x l] x l)
  with x l show ?case by simp
qed

lemma paths_of_pairs:
  "list_all (\<lambda>(q, c). get_path c = Inr q) l \<Longrightarrow> paths_of (map snd l) = Inr l"
  by (induction l) auto

lemma with_keys_zip:
  "map sorting_key xs = map Inr keys \<Longrightarrow> with_keys xs = Inr (zip keys xs)"
proof (induction xs arbitrary: keys)
  case Nil
  then show ?case by simp
next
  case (Cons x xs)
  then obtain k ks where "keys = k # ks" by (cases keys) auto
  with Cons show ?case by simp
qed

lemma sort_children_sorted:
  assumes "map sorting_key xs = map Inr keys" and "sorted keys"
  shows "sort_children xs = Inr xs"
proof -
  have len: "length keys = length xs" using assms(1) by (metis length_map)
  then have "map fst (zip keys xs) = keys" "map snd (zip keys xs) = xs" by simp_all
  then have "sort_key fst (zip keys xs) = zip keys xs"
    using assms(2) by (intro sort_key_id_if_sorted) simp
  then show ?thesis
    using with_keys_zip [OF assms(1)] len by (simp add: sort_children_def)
qed

lemma refreshed_keys:
  "list_all2 (refreshed roots gs) l l' \<Longrightarrow> map fst l' = map fst l"
  by (induction l l' rule: list_all2_induct) (simp_all add: refreshed_def)

lemma distinct_same_set:
  assumes "distinct (map fst before)" and "set ordered = set before"
    and "length ordered = length before"
  shows "distinct (map fst ordered)"
proof -
  from assms(1) have db: "distinct before" by (simp add: distinct_map)
  then have "card (set before) = length before" by (rule distinct_card)
  then have "card (set ordered) = length ordered" using assms(2,3) by simp
  then have do: "distinct ordered" by (rule card_distinct)
  from assms(1) have "inj_on fst (set before)" by (simp add: distinct_map)
  then have "inj_on fst (set ordered)" using assms(2) by simp
  with do show ?thesis by (simp add: distinct_map)
qed

lemma listed_keys:
  assumes "distinct (map fst pairs)"
  shows "distinct (map fst (filter (\<lambda>(path, c). path \<in> set new_paths) pairs
             @ map (\<lambda>path. (path, new_item fs path))
                 (remdups (filter (\<lambda>path. path \<notin> fst ` set pairs) new_paths))))"
    and "fst ` set (filter (\<lambda>(path, c). path \<in> set new_paths) pairs
             @ map (\<lambda>path. (path, new_item fs path))
                 (remdups (filter (\<lambda>path. path \<notin> fst ` set pairs) new_paths))) = set new_paths"
proof -
  let ?A = "filter (\<lambda>(path, c). path \<in> set new_paths) pairs"
  let ?F = "filter (\<lambda>path. path \<notin> fst ` set pairs) new_paths"
  let ?B = "map (\<lambda>path. (path, new_item fs path)) (remdups ?F)"
  have mB: "map fst ?B = remdups ?F" by (simp add: comp_def)
  have dA: "distinct (map fst ?A)" using assms by (rule distinct_map_filter)
  have sA: "set (map fst ?A) = fst ` set pairs \<inter> set new_paths"
  proof
    show "set (map fst ?A) \<subseteq> fst ` set pairs \<inter> set new_paths"
    proof
      fix q assume "q \<in> set (map fst ?A)"
      then obtain x where x: "x \<in> set ?A" "q = fst x"
        by (metis (no_types, lifting) image_iff set_map)
      then have "x \<in> set pairs" "fst x \<in> set new_paths" by (simp_all add: case_prod_unfold)
      with x(2) show "q \<in> fst ` set pairs \<inter> set new_paths" by simp
    qed
    show "fst ` set pairs \<inter> set new_paths \<subseteq> set (map fst ?A)"
    proof
      fix q assume "q \<in> fst ` set pairs \<inter> set new_paths"
      then obtain c where "(q, c) \<in> set pairs" "q \<in> set new_paths" by auto
      then have "(q, c) \<in> set ?A" by simp
      then have "fst (q, c) \<in> fst ` set ?A" by (rule imageI)
      then show "q \<in> set (map fst ?A)" by (simp only: set_map fst_conv)
    qed
  qed
  have sF: "set (remdups ?F) = set new_paths - fst ` set pairs"
    by (simp only: set_remdups set_filter) blast
  have "set (map fst ?A) \<inter> set (remdups ?F) = {}" unfolding sA sF by blast
  then have "distinct (map fst ?A @ remdups ?F)"
    using dA by (simp only: distinct_append distinct_remdups simp_thms)
  then show "distinct (map fst (?A @ ?B))" by (simp only: map_append mB)
  have "fst ` set (?A @ ?B) = set (map fst ?A) \<union> set (map fst ?B)"
    by (simp only: set_map set_append image_Un)
  also have "\<dots> = (fst ` set pairs \<inter> set new_paths) \<union> (set new_paths - fst ` set pairs)"
    by (simp only: sA mB sF)
  also have "\<dots> = set new_paths" by blast
  finally show "fst ` set (?A @ ?B) = set new_paths" .
qed

lemma second_call_empty:
  assumes p: "prepare fs (Some d) dir = Inr (Returned dir1 log)" and u: "unmixed dir1"
  shows "open_and_refresh_directory fs gs tr (Some d) dir1
      = Inr (dir1, [Deleted dummy_item, Inserted dummy_item])"
proof -
  let ?cs = "if contains_dummy dir then [] else item_children dir"
  from p have l: "iterdir fs d = Some []"
    and d1: "dir1 = insert_dummy (Item (item_values dir) (item_tags dir) ?cs)"
    by (auto simp: prepare_def Let_def split: sum.splits option.splits if_splits)
  from u d1 have "?cs = []"
    by (cases ?cs) (auto simp: insert_dummy_def dummy_item_def)
  with d1 have d1': "dir1 = Item (item_values dir) (item_tags dir) [dummy_item]"
    by (simp add: insert_dummy_def)
  have cd: "contains_dummy dir1" using d1' by (simp add: contains_dummy_def dummy_item_def)
  have "prepare fs (Some d) dir1 = Inr (Returned dir1 [Deleted dummy_item, Inserted dummy_item])"
    using cd l d1' by (simp add: prepare_def Let_def insert_dummy_def)
  then show ?thesis by (simp add: open_and_refresh_directory.simps)
qed

lemma prepare_settled:
  assumes ok: "list_all (\<lambda>(q, c). get_path c = Inr q) ordered"
    and dist: "distinct (map fst ordered)"
    and keys: "fst ` set ordered = set new_paths"
    and l: "iterdir fs d = Some new_paths" and ne: "new_paths \<noteq> []"
  shows "prepare fs (Some d) (Item v t (map snd ordered)) = Inr (Listed ordered ordered [])"
proof -
  let ?dir = "Item v t (map snd ordered)"
  have po: "paths_of (map snd ordered) = Inr ordered" using ok by (rule paths_of_pairs)
  then have "paths_of (item_children ?dir) = Inr ordered" by simp
  then have nd: "\<not> contains_dummy ?dir" by (rule paths_of_no_dummy)
  have dict: "dict_of ordered = ordered" using dist by (rule dict_of_distinct)
  have all_in: "\<forall>x \<in> set ordered. fst x \<in> set new_paths" using keys by blast
  have kept: "filter (\<lambda>(path, c). path \<in> set new_paths) ordered = ordered"
    using all_in by (intro filter_True) (simp add: case_prod_unfold)
  have gone: "filter (\<lambda>(path, c). path \<notin> set new_paths) ordered = []"
    using all_in by (intro filter_False) (simp add: case_prod_unfold)
  have fresh: "filter (\<lambda>path. path \<notin> fst ` set ordered) new_paths = []"
    unfolding keys by (intro filter_False) simp
  have "prepare fs (Some d) ?dir =
      (let gone = filter (\<lambda>(path, c). path \<notin> set new_paths) (dict_of ordered);
           kept = filter (\<lambda>(path, c). path \<in> set new_paths) (dict_of ordered);
           fresh = map (\<lambda>path. (path, new_item fs path))
                     (remdups (filter (\<lambda>path. path \<notin> fst ` set (dict_of ordered)) new_paths))
       in Inr (Listed ordered (kept @ fresh)
                ([] @ map (Deleted \<circ> snd) gone @ concat (map (inserted \<circ> snd) fresh))))"
    using nd po l ne by (simp add: prepare_def Let_def)
  also have "\<dots> = Inr (Listed ordered ordered [])"
    unfolding dict Let_def kept gone fresh by simp
  finally show ?thesis .
qed

lemma second_call_listed:
  assumes p: "prepare fs (Some d) dir = Inr (Listed pairs path2id log0)"
    and dist: "distinct (map fst pairs)"
    and p2: "path2id = filter (\<lambda>(path, c). path \<in> set new_paths) pairs
             @ map (\<lambda>path. (path, new_item fs path))
                 (remdups (filter (\<lambda>path. path \<notin> fst ` set pairs) new_paths))"
    and l: "iterdir fs d = Some new_paths" and ne: "new_paths \<noteq> []"
    and g: "refresh_children fs gs tr path2id = Inr (before, log1)"
    and s: "sort_children before = Inr ordered"
    and st: "list_all (settled fs gs tr) before"
  shows "\<exists>log2. open_and_refresh_directory fs gs tr (Some d) (Item v t (map snd ordered))
            = Inr (Item v t (map snd ordered), log2)
          \<and> list_all placeholder_call log2"
proof -
  let ?dir = "Item v t (map snd ordered)"
  have la: "list_all2 (refreshed tr gs) path2id before" using g by (rule refresh_children_refreshed)
  have kb: "map fst before = map fst path2id" using la by (rule refreshed_keys)
  have set_eq: "set ordered = set before" by (rule sort_children_props(2) [OF s])
  have len_eq: "length ordered = length before" by (rule sort_children_props(3) [OF s])
  have okp: "list_all (\<lambda>(q, c). get_path c = Inr q) pairs"
    using prepare_Listed(1) [OF p] by (rule paths_of_get_path)
  have ok2: "list_all (\<lambda>(q, c). get_path c = Inr q) path2id"
  proof -
    have "list_all (\<lambda>(q, c). get_path c = Inr q) (filter (\<lambda>(path, c). path \<in> set new_paths) pairs)"
      using okp by (simp add: list_all_iff)
    moreover have "list_all (\<lambda>(q, c). get_path c = Inr q) (map (\<lambda>path. (path, new_item fs path)) ps)" for ps
      by (induction ps) simp_all
    ultimately show ?thesis unfolding p2 by (simp only: list_all_append simp_thms)
  qed
  have okb: "list_all (\<lambda>(q, c). get_path c = Inr q) before" using la ok2 by (rule refreshed_paths)
  have oko: "list_all (\<lambda>(q, c). get_path c = Inr q) ordered"
    using okb set_eq by (simp only: list_all_iff)
  have d2: "distinct (map fst path2id)" unfolding p2 using dist by (rule listed_keys(1))
  then have db: "distinct (map fst before)" by (simp only: kb)
  have do: "distinct (map fst ordered)" using db set_eq len_eq by (rule distinct_same_set)
  have "fst ` set ordered = set (map fst before)" by (simp only: set_eq set_map)
  also have "\<dots> = fst ` set path2id" by (simp only: kb set_map)
  also have "\<dots> = set new_paths" unfolding p2 using dist by (rule listed_keys(2))
  finally have keys: "fst ` set ordered = set new_paths" .
  have prep: "prepare fs (Some d) ?dir = Inr (Listed ordered ordered [])"
    using oko do keys l ne by (rule prepare_settled)
  have "list_all (settled fs gs tr) ordered" using st set_eq by (simp only: list_all_iff)
  then obtain log2 where g2: "refresh_children fs gs tr ordered = Inr (ordered, log2)"
    and b2: "list_all placeholder_call log2"
    using settled_all by blast
  from sort_children_props(1) [OF s] obtain ks where "map sorting_key ordered = map Inr ks" "sorted ks"
    by blast
  then have so: "sort_children ordered = Inr ordered" by (rule sort_children_sorted)
  have fin: "finish (Some d) ?dir ordered ordered = Inr ?dir"
    using do so by (simp add: finish_def)
  have "open_and_refresh_directory fs gs tr (Some d) ?dir = Inr (?dir, [] @ log2)"
    by (simp add: open_and_refresh_directory.simps [of fs gs tr "Some d" ?dir] prep g2 fin)
  with b2 show ?thesis by simp
qed

lemma open_and_refresh_directory_cases:
  assumes r: "open_and_refresh_directory fs gs tr (Some d) dir = Inr (dir', log)"
  shows "prepare fs (Some d) dir = Inr (Returned dir' log)
     \<or> (\<exists>new_paths. iterdir fs d = Some new_paths \<and> new_paths \<noteq> [])"
proof (cases "prepare fs (Some d) dir")
  case (Inl e)
  with r show ?thesis by (simp add: open_and_refresh_directory.simps)
next
  case (Inr prep)
  show ?thesis
  proof (cases prep)
    case (Returned x l0)
    with Inr r show ?thesis by (simp add: open_and_refresh_directory.simps)
  next
    case (Listed pairs path2id log0)
    with Inr have "prepare fs (Some d) dir = Inr (Listed pairs path2id log0)" by simp
    from prepare_Listed(3) [OF this, of d] show ?thesis by blast
  qed
qed

lemma refresh_children_single:
  assumes nt: "new_tags_of roots gs cp (item_tags c) = Inr (item_tags c)"
    and sub: "(if Tag_dir \<in> item_tags c \<and> \<not> contains_dummy c
               then open_and_refresh_directory fs gs roots (Some cp) c
               else Inr (c, [])) = Inr (c, log)"
  shows "refresh_children fs gs roots [(cp, c)] = Inr ([(cp, c)], log)"
proof -
  have c: "Item (item_values c) (item_tags c) (item_children c) = c" by simp
  show ?thesis
    by (simp only: refresh_children.simps nt sum.case c sub prod.case
        simp_thms if_False append_Nil append_Nil2)
qed

lemma stable:
  shows "\<forall>d dir' log. dp = Some d \<longrightarrow> open_and_refresh_directory fs gs tr dp dir = Inr (dir', log)
           \<longrightarrow> unmixed dir'
           \<longrightarrow> (\<exists>log2. open_and_refresh_directory fs gs tr dp dir' = Inr (dir', log2)
                  \<and> list_all placeholder_call log2)"
    and "\<forall>l' log. refresh_children fs gs roots l = Inr (l', log)
           \<longrightarrow> (\<forall>x \<in> set l'. unmixed (snd x))
           \<longrightarrow> list_all (settled fs gs roots) l'"
proof (induction fs gs tr dp dir and fs gs roots l rule: open_and_refresh_directory_refresh_children.induct)
  case (1 fs gs tr dp dir)
  show ?case
  proof (intro allI impI)
    fix d dir' log
    assume dp: "dp = Some d"
      and r: "open_and_refresh_directory fs gs tr dp dir = Inr (dir', log)"
      and u: "unmixed dir'"
    from r dp have r': "open_and_refresh_directory fs gs tr (Some d) dir = Inr (dir', log)" by simp
    from open_and_refresh_directory_cases [OF r']
    show "\<exists>log2. open_and_refresh_directory fs gs tr dp dir' = Inr (dir', log2)
            \<and> list_all placeholder_call log2"
    proof
      assume "prepare fs (Some d) dir = Inr (Returned dir' log)"
      from second_call_empty [OF this u, of gs tr] show ?thesis
        using dp by (simp add: placeholder_call_def)
    next
      assume "\<exists>new_paths. iterdir fs d = Some new_paths \<and> new_paths \<noteq> []"
      then obtain new_paths where l: "iterdir fs d = Some new_paths" and ne: "new_paths \<noteq> []"
        by blast
      from open_and_refresh_directory_Some [OF r' l ne]
      obtain pairs path2id log0 before log1 ordered where
        p: "prepare fs (Some d) dir = Inr (Listed pairs path2id log0)"
        and dist: "distinct (map fst pairs)"
        and p2: "path2id = filter (\<lambda>(path, c). path \<in> set new_paths) pairs
             @ map (\<lambda>path. (path, new_item fs path))
                 (remdups (filter (\<lambda>path. path \<notin> fst ` set pairs) new_paths))"
        and g: "refresh_children fs gs tr path2id = Inr (before, log1)"
        and s: "sort_children before = Inr ordered"
        and d': "dir' = Item (item_values dir) (item_tags dir) (map snd ordered)"
        by blast
      have set_eq: "set ordered = set before" by (rule sort_children_props(2) [OF s])
      have ub: "\<forall>x \<in> set before. unmixed (snd x)"
        using u unfolding d' set_eq [symmetric] by simp
      have "\<forall>l' log. refresh_children fs gs tr path2id = Inr (l', log)
           \<longrightarrow> (\<forall>x \<in> set l'. unmixed (snd x))
           \<longrightarrow> list_all (settled fs gs tr) l'"
        using "1.IH" [of "Listed pairs path2id log0" pairs path2id log0] p dp by simp
      with g ub have st: "list_all (settled fs gs tr) before" by blast
      from second_call_listed [OF p dist p2 l ne g s st, of "item_values dir" "item_tags dir"]
      show ?thesis using d' dp by simp
    qed
  qed
next
  case (2 fs gs roots)
  show ?case by (simp add: open_and_refresh_directory.simps)
next
  case (3 fs gs roots cp child rest)
  show ?case
  proof (intro allI impI)
    fix l' log
    assume r: "refresh_children fs gs roots ((cp, child) # rest) = Inr (l', log)"
      and u: "\<forall>x \<in> set l'. unmixed (snd x)"
    from r obtain nt where nt: "new_tags_of roots gs cp (item_tags child) = Inr nt"
      by (auto simp: open_and_refresh_directory.simps split: sum.splits)
    let ?c' = "Item (item_values child) nt (item_children child)"
    let ?guard = "Tag_dir \<in> nt \<and> \<not> contains_dummy ?c'"
    let ?sub = "if ?guard then open_and_refresh_directory fs gs roots (Some cp) ?c' else Inr (?c', [])"
    from r nt obtain c'' log' where sub: "?sub = Inr (c'', log')"
      by (auto simp: open_and_refresh_directory.simps split: sum.splits)
    from r nt sub obtain rest' log'' where
      rest: "refresh_children fs gs roots rest = Inr (rest', log'')" and l': "l' = (cp, c'') # rest'"
      by (auto simp: open_and_refresh_directory.simps split: sum.splits)
    have uc: "unmixed c''" and ur: "\<forall>x \<in> set rest'. unmixed (snd x)" using u l' by simp_all
    have tags: "item_tags c'' = nt"
    proof (cases ?guard)
      case True
      with sub have "open_and_refresh_directory fs gs roots (Some cp) ?c' = Inr (c'', log')" by simp
      from open_and_refresh_directory_keeps [OF this] show ?thesis by simp
    next
      case False
      with sub show ?thesis by auto
    qed
    have idem: "new_tags_of roots gs cp (item_tags c'') = Inr (item_tags c'')"
      unfolding tags using nt by (rule new_tags_of_idem)
    have "\<exists>log2. (if Tag_dir \<in> item_tags c'' \<and> \<not> contains_dummy c''
               then open_and_refresh_directory fs gs roots (Some cp) c''
               else Inr (c'', [])) = Inr (c'', log2) \<and> list_all placeholder_call log2"
    proof (cases "Tag_dir \<in> item_tags c'' \<and> \<not> contains_dummy c''")
      case False
      then show ?thesis by (intro exI [of _ "[]"]) (simp only: if_not_P list.pred_inject simp_thms)
    next
      case g2: True
      have g1: ?guard
      proof (rule ccontr)
        assume "\<not> ?guard"
        with sub have "c'' = ?c'" by auto
        with g2 tags \<open>\<not> ?guard\<close> show False by simp
      qed
      with sub have f1: "open_and_refresh_directory fs gs roots (Some cp) ?c' = Inr (c'', log')" by simp
      have "\<forall>d dir' log. Some cp = Some d
           \<longrightarrow> open_and_refresh_directory fs gs roots (Some cp) ?c' = Inr (dir', log)
           \<longrightarrow> unmixed dir'
           \<longrightarrow> (\<exists>log2. open_and_refresh_directory fs gs roots (Some cp) dir' = Inr (dir', log2)
                  \<and> list_all placeholder_call log2)"
        using "3.IH"(1) [OF nt g1] .
      with f1 uc obtain log2 where
        "open_and_refresh_directory fs gs roots (Some cp) c'' = Inr (c'', log2)"
        "list_all placeholder_call log2"
        by blast
      with g2 show ?thesis by simp
    qed
    then obtain log2 where sub2: "(if Tag_dir \<in> item_tags c'' \<and> \<not> contains_dummy c''
               then open_and_refresh_directory fs gs roots (Some cp) c''
               else Inr (c'', [])) = Inr (c'', log2)" and b2: "list_all placeholder_call log2"
      by blast
    have "refresh_children fs gs roots [(cp, c'')] = Inr ([(cp, c'')], log2)"
      using idem sub2 by (rule refresh_children_single)
    with b2 have sc: "settled fs gs roots (cp, c'')" unfolding settled_def by blast
    have "\<forall>l' log. refresh_children fs gs roots rest = Inr (l', log)
           \<longrightarrow> (\<forall>x \<in> set l'. unmixed (snd x))
           \<longrightarrow> list_all (settled fs gs roots) l'"
      using "3.IH"(2) [OF nt sub refl] .
    with rest ur have "list_all (settled fs gs roots) rest'" by blast
    with sc l' show "list_all (settled fs gs roots) l'" by simp
  qed
qed

text \<open>
  Claim C5 (as amended). Let the reconciliation of a directory return and leave no item
  that holds a placeholder beside other children. Then a second reconciliation with the same
  file system and the same status maps returns the same tree, with the same items, tags and
  order, and the only calls it makes on the tree delete or insert a placeholder: no tag is
  set, and no item with a path is inserted or deleted.
\<close>

theorem second_reconciliation_changes_nothing:
  assumes "open_and_refresh_directory fs statuses top_roots (Some dir_path) dir = Inr (dir', log)"
    and "unmixed dir'"
  shows "\<exists>log'. open_and_refresh_directory fs statuses top_roots (Some dir_path) dir' = Inr (dir', log')
           \<and> list_all placeholder_call log'"
  using stable(1) [of "Some dir_path" fs statuses top_roots dir] assms by blast

text \<open>
  A project with a directory whose file was replaced, an empty directory and a new file,
  after its first reconciliation.
\<close>

theorem second_reconciliation_changes_nothing_witness:
  "\<exists>log'. open_and_refresh_directory
      \<lparr>iterdir = (\<lambda>p. if p = [''p''] then Some [[''p'', ''src''], [''p'', ''e''], [''p'', ''b.py'']]
                        else if p = [''p'', ''src''] then Some [[''p'', ''src'', ''x'']]
                        else if p = [''p'', ''e''] then Some [] else None),
        is_dir = (\<lambda>p. p = [''p'', ''src''] \<or> p = [''p'', ''e''])\<rparr>
      (Map.empty([''p''] \<mapsto> [([''p'', ''src'', ''x''], git_modified), ([''p'', ''b.py''], git_untracked)]))
      {[''p'']} (Some [''p''])
      (Item (Some [''p'']) {Tag_dir, Tag_project}
         [Item (Some [''p'', ''src'']) {Tag_dir, Tag_git git_modified}
            [Item (Some [''p'', ''src'', ''x'']) {Tag_file, Tag_git git_modified} []],
          Item (Some [''p'', ''e'']) {Tag_dir} [Item None {Tag_dummy} []],
          Item (Some [''p'', ''b.py'']) {Tag_file, Tag_git git_untracked} []])
    = Inr (Item (Some [''p'']) {Tag_dir, Tag_project}
         [Item (Some [''p'', ''src'']) {Tag_dir, Tag_git git_modified}
            [Item (Some [''p'', ''src'', ''x'']) {Tag_file, Tag_git git_modified} []],
          Item (Some [''p'', ''e'']) {Tag_dir} [Item None {Tag_dummy} []],
          Item (Some [''p'', ''b.py'']) {Tag_file, Tag_git git_untracked} []], log')
    \<and> list_all placeholder_call log'"
proof -
  let ?fs = "\<lparr>iterdir = (\<lambda>p. if p = [''p''] then Some [[''p'', ''src''], [''p'', ''e''], [''p'', ''b.py'']]
                        else if p = [''p'', ''src''] then Some [[''p'', ''src'', ''x'']]
                        else if p = [''p'', ''e''] then Some [] else None),
        is_dir = (\<lambda>p. p = [''p'', ''src''] \<or> p = [''p'', ''e''])\<rparr> :: filesystem"
  let ?gs = "Map.empty([''p''] \<mapsto> [([''p'', ''src'', ''x''], git_modified), ([''p'', ''b.py''], git_untracked)])"
  let ?d0 = "Item (Some [''p'']) {Tag_dir, Tag_project}
         [Item (Some [''p'', ''src'']) {Tag_dir} [Item (Some [''p'', ''src'', ''old'']) {Tag_file} []],
          Item (Some [''p'', ''e'']) {Tag_dir} []]"
  let ?d1 = "Item (Some [''p'']) {Tag_dir, Tag_project}
         [Item (Some [''p'', ''src'']) {Tag_dir, Tag_git git_modified}
            [Item (Some [''p'', ''src'', ''x'']) {Tag_file, Tag_git git_modified} []],
          Item (Some [''p'', ''e'']) {Tag_dir} [Item None {Tag_dummy} []],
          Item (Some [''p'', ''b.py'']) {Tag_file, Tag_git git_untracked} []]"
  have "(case open_and_refresh_directory ?fs ?gs {[''p'']} (Some [''p'']) ?d0 of
           Inl e \<Rightarrow> None | Inr (d, l) \<Rightarrow> Some d) = Some ?d1"
    by code_simp
  then obtain log where first: "open_and_refresh_directory ?fs ?gs {[''p'']} (Some [''p'']) ?d0 = Inr (?d1, log)"
    by (auto split: sum.splits)
  have u: "unmixed ?d1" by simp
  from second_reconciliation_changes_nothing [OF first u] show ?thesis .
qed

text \<open>
  Claim C5, counterexample. A directory with an empty listing shows its placeholder.
  Reconciled twice, it is the same after the second call as after the first, yet the second
  call deletes the placeholder and inserts a new one.
\<close>

theorem placeholder_recreated_counterexample:
  "(case open_and_refresh_directory
      \<lparr>iterdir = (\<lambda>p. if p = [''p'', ''e''] then Some [] else None), is_dir = (\<lambda>p. True)\<rparr>
      Map.empty {[''p'']} (Some [''p'', ''e'']) (Item (Some [''p'', ''e'']) {Tag_dir} [dummy_item]) of
      Inl e \<Rightarrow> None
    | Inr (dir1, log1) \<Rightarrow>
        (case open_and_refresh_directory
           \<lparr>iterdir = (\<lambda>p. if p = [''p'', ''e''] then Some [] else None), is_dir = (\<lambda>p. True)\<rparr>
           Map.empty {[''p'']} (Some [''p'', ''e'']) dir1 of
           Inl e \<Rightarrow> None
         | Inr (dir2, log2) \<Rightarrow> Some (dir2 = dir1, log2)))
   = Some (True, [Deleted dummy_item, Inserted dummy_item])"
  by code_simp

subsection \<open>A directory whose listing has become empty\<close>

text \<open>
  Claim C4, the failing input. A directory that shows one file is reconciled when its listing
  has become empty: the function inserts a placeholder and returns, so that the directory
  holds the file and the placeholder together, and its children do not mirror the empty
  listing. The next reconciliation of that directory fails the assertion of
  \<^verbatim>\<open>get_path\<close>.
\<close>

theorem empty_listing_keeps_children:
  "open_and_refresh_directory
     \<lparr>iterdir = (\<lambda>p. if p = [''p'', ''src''] then Some [] else None), is_dir = (\<lambda>p. True)\<rparr>
     Map.empty {[''p'']} (Some [''p'', ''src''])
     (Item (Some [''p'', ''src'']) {Tag_dir} [Item (Some [''p'', ''src'', ''x'']) {Tag_file} []])
   = Inr (Item (Some [''p'', ''src'']) {Tag_dir}
            [Item (Some [''p'', ''src'', ''x'']) {Tag_file} [], Item None {Tag_dummy} []],
          [Inserted (Item None {Tag_dummy} [])])
   \<and> open_and_refresh_directory
     \<lparr>iterdir = (\<lambda>p. if p = [''p'', ''src''] then Some [] else None), is_dir = (\<lambda>p. True)\<rparr>
     Map.empty {[''p'']} (Some [''p'', ''src''])
     (Item (Some [''p'', ''src'']) {Tag_dir}
            [Item (Some [''p'', ''src'', ''x'']) {Tag_file} [], Item None {Tag_dummy} []])
   = Inl AssertionError"
  by code_simp

subsection \<open>Examples\<close>

text \<open>Six projects that exist, no open file: the last one goes, five stay.\<close>

theorem eviction_check_witness:
  "(case hide_old_projects \<lparr>iterdir = (\<lambda>p. None), is_dir = (\<lambda>p. True)\<rparr> []
      \<lparr>projects = [(6, Item (Some [''a'']) {Tag_dir, Tag_project} [dummy_item]),
                   (5, Item (Some [''b'']) {Tag_dir, Tag_project} [dummy_item]),
                   (4, Item (Some [''c'']) {Tag_dir, Tag_project} [dummy_item]),
                   (3, Item (Some [''d'']) {Tag_dir, Tag_project} [dummy_item]),
                   (2, Item (Some [''e'']) {Tag_dir, Tag_project} [dummy_item]),
                   (1, Item (Some [''f'']) {Tag_dir, Tag_project} [dummy_item])],
        next_id = 7, git_statuses = Map.empty, directory_tree_projects = []\<rparr> of
      Inl e \<Rightarrow> None
    | Inr tree' \<Rightarrow> Some (map fst (projects tree'), directory_tree_projects tree'))
   = Some ([6, 5, 4, 3, 2], [''/a'', ''/b'', ''/c'', ''/d'', ''/e''])"
proof -
  let ?fs = "\<lparr>iterdir = (\<lambda>p. None), is_dir = (\<lambda>p. True)\<rparr> :: filesystem"
  let ?ps = "[(6, Item (Some [''a'']) {Tag_dir, Tag_project} [dummy_item]),
                   (5, Item (Some [''b'']) {Tag_dir, Tag_project} [dummy_item]),
                   (4, Item (Some [''c'']) {Tag_dir, Tag_project} [dummy_item]),
                   (3, Item (Some [''d'']) {Tag_dir, Tag_project} [dummy_item]),
                   (2, Item (Some [''e'']) {Tag_dir, Tag_project} [dummy_item]),
                   (1, Item (Some [''f'']) {Tag_dir, Tag_project} [dummy_item])] :: (nat \<times> item) list"
  let ?t = "\<lparr>projects = ?ps, next_id = 7, git_statuses = Map.empty, directory_tree_projects = []\<rparr>"
  have d: "distinct (map fst (projects ?t))" by simp
  have ok: "list_all (\<lambda>(i, c). \<exists>p. get_path c = Inr p) (projects ?t)"
    by (simp add: get_path_def)
  from eviction_check [OF d ok, of ?fs "[]"] obtain tree' where
    h: "hide_old_projects ?fs [] ?t = Inr tree'"
    and sub: "subseq (projects tree') (projects ?t)"
    and mem: "\<forall>k p. k < length (projects ?t) \<and> get_path (snd (projects ?t ! k)) = Inr p \<longrightarrow>
          (projects ?t ! k \<in> set (projects tree') \<longleftrightarrow>
             is_dir ?fs p \<and> (has_open_file [] p
               \<or> Suc k + length (filter (\<lambda>y. y \<in> set (projects tree')) (drop (Suc k) (projects ?t)))
                   \<le> PROJECT_AUTOCLOSE_COUNT))"
    by blast
  have "(case hide_old_projects ?fs [] ?t of
      Inl e \<Rightarrow> None
    | Inr tree' \<Rightarrow> Some (map fst (projects tree'), directory_tree_projects tree'))
   = Some ([6, 5, 4, 3, 2], [''/a'', ''/b'', ''/c'', ''/d'', ''/e''])"
    by code_simp
  with h show ?thesis by simp
qed

text \<open>
  A tracked project is moved to the front; nothing else changes, although another project
  has lost its directory. A path that is not tracked gets a new project at the front; the
  project without directory is removed, the setting is written and the refresh starts.
\<close>

theorem add_project_cases_witness:
  "add_project \<lparr>iterdir = (\<lambda>p. None), is_dir = (\<lambda>p. p \<noteq> [''gone''])\<rparr> [] [''b''] True
      \<lparr>projects = [(1, Item (Some [''gone'']) {Tag_dir, Tag_project} [dummy_item]),
                   (0, Item (Some [''b'']) {Tag_dir, Tag_project} [dummy_item])],
        next_id = 2, git_statuses = Map.empty, directory_tree_projects = [''/gone'', ''/b'']\<rparr>
   = Inr (\<lparr>projects = [(0, Item (Some [''b'']) {Tag_dir, Tag_project} [dummy_item]),
                        (1, Item (Some [''gone'']) {Tag_dir, Tag_project} [dummy_item])],
        next_id = 2, git_statuses = Map.empty, directory_tree_projects = [''/gone'', ''/b'']\<rparr>, None)
   \<and> (case add_project \<lparr>iterdir = (\<lambda>p. None), is_dir = (\<lambda>p. p \<noteq> [''gone''])\<rparr> [] [''c''] True
      \<lparr>projects = [(1, Item (Some [''gone'']) {Tag_dir, Tag_project} [dummy_item]),
                   (0, Item (Some [''b'']) {Tag_dir, Tag_project} [dummy_item])],
        next_id = 2, git_statuses = Map.empty, directory_tree_projects = [''/gone'', ''/b'']\<rparr> of
      Inl e \<Rightarrow> None
    | Inr (tree', started) \<Rightarrow>
        Some (map (\<lambda>(i, c). (i, item_values c)) (projects tree'), next_id tree',
              directory_tree_projects tree', started))
   = Some ([(2, Some [''c'']), (0, Some [''b''])], 3, [''/c'', ''/b''],
           Some [(2, [''c'']), (0, [''b''])])"
proof -
  let ?fs = "\<lparr>iterdir = (\<lambda>p. None), is_dir = (\<lambda>p. p \<noteq> [''gone''])\<rparr> :: filesystem"
  let ?g = "Item (Some [''gone'']) {Tag_dir, Tag_project} [dummy_item]"
  let ?b = "Item (Some [''b'']) {Tag_dir, Tag_project} [dummy_item]"
  let ?t = "\<lparr>projects = [(1, ?g), (0, ?b)],
        next_id = 2, git_statuses = Map.empty, directory_tree_projects = [''/gone'', ''/b'']\<rparr>"
  have gg: "get_path ?g = Inr [''gone'']" and gb: "get_path ?b = Inr [''b'']"
    by (simp_all add: get_path_def dummy_item_def)
  have d: "distinct (map fst (projects ?t))" by simp
  have ok: "list_all (\<lambda>(i, c). \<exists>p. get_path c = Inr p) (projects ?t)" using gg gb by simp
  have fresh: "next_id ?t \<notin> fst ` set (projects ?t)" by simp
  have tracked: "\<exists>x \<in> set (projects ?t). get_path (snd x) = Inr [''b'']" using gb by simp
  from add_project_cases [OF d ok fresh, of "[''b'']" ?fs "[]" True] tracked
  obtain before i project after where
    r: "projects ?t = before @ (i, project) # after"
       "get_path project = Inr [''b'']"
       "add_project ?fs [] [''b''] True ?t = Inr (?t\<lparr>projects := (i, project) # before @ after\<rparr>, None)"
    by blast
  from r(1) have "(i, project) \<in> set (projects ?t)" by simp
  with r(2) gg have ip: "(i, project) = (0, ?b)" by auto
  from r(1) have "[(1, ?g), (0, ?b)] = before @ (0, ?b) # after" unfolding ip by simp
  then have "before = [(1, ?g)] \<and> after = []"
    by (auto simp: Cons_eq_append_conv)
  with r(3) ip have moved: "add_project ?fs [] [''b''] True ?t
      = Inr (?t\<lparr>projects := [(0, ?b), (1, ?g)]\<rparr>, None)"
    by simp
  have "(case add_project ?fs [] [''c''] True ?t of
      Inl e \<Rightarrow> None
    | Inr (tree', started) \<Rightarrow>
        Some (map (\<lambda>(i, c). (i, item_values c)) (projects tree'), next_id tree',
              directory_tree_projects tree', started))
   = Some ([(2, Some [''c'']), (0, Some [''b''])], 3, [''/c'', ''/b''],
           Some [(2, [''c'']), (0, [''b''])])"
    by code_simp
  with moved show ?thesis by simp
qed

text \<open>
  Claim C8, counterexample. The path is tracked and another project has lost its
  directory. After \<^verbatim>\<open>add_project\<close> the setting still has the old order and the lost
  project is still tracked, and no refresh was started; the eviction check on that state
  would have removed the lost project and written the setting.
\<close>

theorem tracked_project_counterexample:
  "(case add_project \<lparr>iterdir = (\<lambda>p. None), is_dir = (\<lambda>p. p \<noteq> [''gone''])\<rparr> [] [''b''] True
      \<lparr>projects = [(1, Item (Some [''gone'']) {Tag_dir, Tag_project} [dummy_item]),
                   (0, Item (Some [''b'']) {Tag_dir, Tag_project} [dummy_item])],
        next_id = 2, git_statuses = Map.empty, directory_tree_projects = [''/gone'', ''/b'']\<rparr> of
      Inl e \<Rightarrow> None
    | Inr (tree', started) \<Rightarrow> Some (map fst (projects tree'), directory_tree_projects tree', started))
   = Some ([0, 1], [''/gone'', ''/b''], None)
   \<and> (case hide_old_projects \<lparr>iterdir = (\<lambda>p. None), is_dir = (\<lambda>p. p \<noteq> [''gone''])\<rparr> []
      \<lparr>projects = [(0, Item (Some [''b'']) {Tag_dir, Tag_project} [dummy_item]),
                   (1, Item (Some [''gone'']) {Tag_dir, Tag_project} [dummy_item])],
        next_id = 2, git_statuses = Map.empty, directory_tree_projects = [''/gone'', ''/b'']\<rparr> of
      Inl e \<Rightarrow> None
    | Inr tree' \<Rightarrow> Some (map fst (projects tree'), directory_tree_projects tree'))
   = Some ([0], [''/b''])"
  by code_simp

text \<open>The results for one project arrive when two are tracked; and when that one is.\<close>

theorem stale_results_are_dropped_witness:
  "done_callback \<lparr>iterdir = (\<lambda>p. None), is_dir = (\<lambda>p. True)\<rparr> [(0, [''b''])]
      (Succeeded (Map.empty([''b''] \<mapsto> [([''b'', ''.git''], git_ignored), ([''b'', ''x''], git_modified)])))
      \<lparr>projects = [(1, Item (Some [''a'']) {Tag_dir, Tag_project} [dummy_item]),
                   (0, Item (Some [''b'']) {Tag_dir, Tag_project} [dummy_item])],
        next_id = 2, git_statuses = Map.empty, directory_tree_projects = [''/a'', ''/b'']\<rparr>
   = Inr (\<lparr>projects = [(1, Item (Some [''a'']) {Tag_dir, Tag_project} [dummy_item]),
                   (0, Item (Some [''b'']) {Tag_dir, Tag_project} [dummy_item])],
        next_id = 2, git_statuses = Map.empty, directory_tree_projects = [''/a'', ''/b'']\<rparr>, [])
   \<and> (case done_callback \<lparr>iterdir = (\<lambda>p. None), is_dir = (\<lambda>p. True)\<rparr> [(0, [''b''])]
      (Succeeded (Map.empty([''b''] \<mapsto> [([''b'', ''.git''], git_ignored), ([''b'', ''x''], git_modified)])))
      \<lparr>projects = [(0, Item (Some [''b'']) {Tag_dir, Tag_project} [dummy_item])],
        next_id = 2, git_statuses = Map.empty, directory_tree_projects = [''/b'']\<rparr> of
      Inl e \<Rightarrow> None
    | Inr (tree', log) \<Rightarrow> Some (projects tree', log))
   = Some ([(0, Item (Some [''b'']) {Tag_dir, Tag_project, Tag_git git_modified} [dummy_item])],
           [Retagged [''b''] {Tag_dir, Tag_project, Tag_git git_modified}])"
proof -
  let ?fs = "\<lparr>iterdir = (\<lambda>p. None), is_dir = (\<lambda>p. True)\<rparr> :: filesystem"
  let ?r = "Map.empty([''b''] \<mapsto> [([''b'', ''.git''], git_ignored), ([''b'', ''x''], git_modified)])"
  let ?t = "\<lparr>projects = [(1, Item (Some [''a'']) {Tag_dir, Tag_project} [dummy_item]),
                   (0, Item (Some [''b'']) {Tag_dir, Tag_project} [dummy_item])],
        next_id = 2, git_statuses = Map.empty, directory_tree_projects = [''/a'', ''/b'']\<rparr>"
  have ne: "set (map fst (projects ?t)) \<noteq> fst ` set [(0 :: nat, [''b''])]" by auto
  from stale_results_are_dropped [of ?t "[(0, [''b''])]" ?fs ?r]
  have "set (map fst (projects ?t)) \<noteq> fst ` set [(0 :: nat, [''b''])] \<longrightarrow>
      done_callback ?fs [(0, [''b''])] (Succeeded ?r) ?t = Inr (?t, [])"
    by (elim conjE)
  with ne have 1: "done_callback ?fs [(0, [''b''])] (Succeeded ?r) ?t = Inr (?t, [])"
    by (rule rev_mp)
  have 2: "(case done_callback ?fs [(0, [''b''])] (Succeeded ?r)
      \<lparr>projects = [(0, Item (Some [''b'']) {Tag_dir, Tag_project} [dummy_item])],
        next_id = 2, git_statuses = Map.empty, directory_tree_projects = [''/b'']\<rparr> of
      Inl e \<Rightarrow> None
    | Inr (tree', log) \<Rightarrow> Some (projects tree', log))
   = Some ([(0, Item (Some [''b'']) {Tag_dir, Tag_project, Tag_git git_modified} [dummy_item])],
           [Retagged [''b''] {Tag_dir, Tag_project, Tag_git git_modified}])"
    by code_simp
  from 1 2 show ?thesis by (rule conjI)
qed

end
